theory Spec2Isabelle
  imports Main "HOL-Library.Word" "HOL-Library.List_Lexorder" "HOL-Library.Char_ord"
begin

unbundle bit_operations_syntax

section \<open>Value model\<close>

text \<open>
  The class \<open>JSON\<close> of \<open>json.hpp\<close> is a tag (\<open>enum Type\<close>) together with a union holding
  the payload of the active tag. The tag and the payload always change together, so a
  value is a datatype with one constructor per tag. The platform is fixed where the
  source leaves it to the implementation: \<open>int\<close> has 32 bits, \<open>double\<close> is an IEEE-754
  binary64 value kept as its 64 bits. An object is a \<open>std::map\<close> from \<open>std::string\<close> to
  \<open>JSON\<close>; it is the list of its members in iteration order, that is with strictly
  increasing keys (\<open>std::string\<close> compares bytes as unsigned values, which is the order
  of \<open>char list\<close> used here).
\<close>

datatype Type = Null | Boolean | Integer | Double | String | Array | Object

datatype JSON =
    JNull
  | JBoolean bool
  | JInteger "32 word"
  | JDouble "64 word"
  | JString string
  | JArray "JSON list"
  | JObject "(string \<times> JSON) list"

fun getType :: "JSON \<Rightarrow> Type" where
  "getType JNull = Null"
| "getType (JBoolean b) = Boolean"
| "getType (JInteger i) = Integer"
| "getType (JDouble x) = Double"
| "getType (JString s) = String"
| "getType (JArray a) = Array"
| "getType (JObject m) = Object"

text \<open>
  Every failure of the source is a value of \<open>error\<close>. The library reports failures by
  exceptions: \<open>TypeMismatch\<close>, \<open>IndexOutOfRange\<close> are the \<open>std::runtime_error\<close>s thrown by the
  accessors (with their message), \<open>SyntaxError\<close> is the \<open>std::runtime_error\<close> built by
  \<open>JSONParser::throwError\<close> from a message and the current line and column,
  \<open>KeyNotFound\<close> is the \<open>std::out_of_range\<close> of \<open>std::map::at\<close>, \<open>InvalidArgument\<close> and
  \<open>OutOfRange\<close> are the \<open>std::invalid_argument\<close> and \<open>std::out_of_range\<close> thrown by
  \<open>std::stoi\<close> and \<open>std::stod\<close>, and \<open>ReadPastEnd\<close> stands for the undefined behaviour of
  reading \<open>data[pos]\<close> with \<open>pos > data.size()\<close>.
\<close>

datatype error =
    TypeMismatch string
  | IndexOutOfRange
  | KeyNotFound
  | SyntaxError string nat nat
  | InvalidArgument
  | OutOfRange
  | ReadPastEnd
  | UndefinedCast

section \<open>The conversions of the standard library\<close>

text \<open>
  The parser and the serializer call \<open>std::stoi\<close>, \<open>std::stod\<close> and the stream inserters
  for \<open>int\<close> and \<open>double\<close>. These are not code of the repository; they are modelled from
  the C and C++ standards. \<open>isspace\<close> is the one of the "C" locale, in which no byte from
  \<open>0x80\<close> on is white space (where plain \<open>char\<close> is signed the source passes such a byte
  as a negative \<open>int\<close>, which the usual implementations answer from the same table).
\<close>

definition isspace :: "char \<Rightarrow> bool" where
  "isspace ch = (ch \<in> {CHR 0x20, CHR 0x09, CHR 0x0A, CHR 0x0B, CHR 0x0C, CHR 0x0D})"

definition is_digit :: "char \<Rightarrow> bool" where
  "is_digit ch = (CHR ''0'' \<le> ch \<and> ch \<le> CHR ''9'')"

definition digit_char :: "nat \<Rightarrow> char" where
  "digit_char k = ''0123456789'' ! k"

definition hex_char :: "nat \<Rightarrow> char" where
  "hex_char k = ''0123456789abcdef'' ! k"

function show_nat :: "nat \<Rightarrow> string" where
  "show_nat n = (if n < 10 then [digit_char n] else show_nat (n div 10) @ [digit_char (n mod 10)])"
  by pat_completeness auto
termination
  by (relation "measure id") auto

function show_hex :: "nat \<Rightarrow> string" where
  "show_hex n = (if n < 16 then [hex_char n] else show_hex (n div 16) @ [hex_char (n mod 16)])"
  by pat_completeness auto
termination
  by (relation "measure id") auto

declare show_nat.simps [simp del] show_hex.simps [simp del]

definition dec_val :: "string \<Rightarrow> nat" where
  "dec_val ds = foldl (\<lambda>a ch. 10 * a + (of_char ch - 48)) 0 ds"

text \<open>
  \<open>std::stoi\<close> runs \<open>strtol\<close> in base 10: leading white space, an optional sign, the
  longest run of digits. No digit at all is \<open>std::invalid_argument\<close>, a value outside
  \<open>int\<close> is \<open>std::out_of_range\<close>.
\<close>

definition stoi :: "string \<Rightarrow> error + 32 word" where
  "stoi s =
     (let s0 = dropWhile isspace s;
          neg = (s0 \<noteq> [] \<and> hd s0 = CHR ''-'');
          s1 = (if s0 \<noteq> [] \<and> (hd s0 = CHR ''-'' \<or> hd s0 = CHR ''+'') then tl s0 else s0);
          ds = takeWhile is_digit s1;
          n = (if neg then - int (dec_val ds) else int (dec_val ds))
      in if ds = [] then Inl InvalidArgument
         else if n < - 2147483648 \<or> 2147483647 < n then Inl OutOfRange
         else Inr (word_of_int n))"

text \<open>The inserter for \<open>int\<close>: decimal, or the unsigned value in lowercase hexadecimal.\<close>

definition show_int :: "bool \<Rightarrow> 32 word \<Rightarrow> string" where
  "show_int hx i =
     (if hx then show_hex (unat i)
      else if sint i < 0 then CHR ''-'' # show_nat (nat (- sint i))
      else show_nat (nat (sint i)))"

subsection \<open>Doubles\<close>

text \<open>
  A double is its 64 bits: sign, 11 bits of biased exponent, 52 bits of fraction. Its
  magnitude, when finite, is the fraction \<open>fst (dbl_mag w) / snd (dbl_mag w)\<close>.
\<close>

definition dbl_sign :: "64 word \<Rightarrow> bool" where
  "dbl_sign w = bit w 63"

definition dbl_expo :: "64 word \<Rightarrow> nat" where
  "dbl_expo w = unat (take_bit 11 (drop_bit 52 w))"

definition dbl_frac :: "64 word \<Rightarrow> nat" where
  "dbl_frac w = unat (take_bit 52 w)"

definition dbl_pack :: "bool \<Rightarrow> nat \<Rightarrow> nat \<Rightarrow> 64 word" where
  "dbl_pack s e f = (if s then push_bit 63 1 else 0) OR push_bit 52 (of_nat e) OR of_nat f"

definition dbl_mag :: "64 word \<Rightarrow> nat \<times> nat" where
  "dbl_mag w =
     (let e = (if dbl_expo w = 0 then 1 else dbl_expo w);
          m = (if dbl_expo w = 0 then dbl_frac w else 2 ^ 52 + dbl_frac w)
      in if 1075 \<le> e then (m * 2 ^ (e - 1075), 1) else (m, 2 ^ (1075 - e)))"

definition round_half_even :: "nat \<Rightarrow> nat \<Rightarrow> nat" where
  "round_half_even n d =
     (let q = n div d; r = n mod d
      in if 2 * r < d then q else if d < 2 * r then q + 1 else if even q then q else q + 1)"

text \<open>
  \<open>ilog b n d\<close> is the largest \<open>k\<close> with \<open>b ^ k \<le> n / d\<close> for a fraction that is at least
  one, \<open>ilog_neg b n d\<close> the smallest \<open>k\<close> with \<open>1 \<le> b ^ k * n / d\<close> for one below one.
\<close>

function ilog :: "nat \<Rightarrow> nat \<Rightarrow> nat \<Rightarrow> nat" where
  "ilog b n d = (if b < 2 \<or> d = 0 \<or> n < b * d then 0 else Suc (ilog b n (b * d)))"
  by pat_completeness auto
termination
proof (relation "measure (\<lambda>(b, n, d). n - d)")
  fix b n d :: nat
  assume a: "\<not> (b < 2 \<or> d = 0 \<or> n < b * d)"
  then have "d < b * d" and "b * d \<le> n" by simp_all
  then have "n - b * d < n - d" by linarith
  then show "((b, n, b * d), (b, n, d)) \<in> measure (\<lambda>(b, n, d). n - d)" by simp
qed simp

function ilog_neg :: "nat \<Rightarrow> nat \<Rightarrow> nat \<Rightarrow> nat" where
  "ilog_neg b n d = (if b < 2 \<or> n = 0 \<or> d \<le> n then 0 else Suc (ilog_neg b (b * n) d))"
  by pat_completeness auto
termination
proof (relation "measure (\<lambda>(b, n, d). d - n)")
  fix b n d :: nat
  assume a: "\<not> (b < 2 \<or> n = 0 \<or> d \<le> n)"
  then have "n < b * n" and "n < d" by simp_all
  then have "d - b * n < d - n" by linarith
  then show "((b, b * n, d), (b, n, d)) \<in> measure (\<lambda>(b, n, d). d - n)" by simp
qed simp

declare ilog.simps [simp del] ilog_neg.simps [simp del]

definition floor_log :: "nat \<Rightarrow> nat \<Rightarrow> nat \<Rightarrow> int" where
  "floor_log b n d = (if d \<le> n then int (ilog b n d) else - int (ilog_neg b n d))"

text \<open>\<open>scaled b k (n, d)\<close> is the fraction \<open>n / d\<close> times \<open>b\<close> to the power \<open>k\<close>.\<close>

definition scaled :: "nat \<Rightarrow> int \<Rightarrow> nat \<times> nat \<Rightarrow> nat \<times> nat" where
  "scaled b k q = (if 0 \<le> k then (fst q * b ^ nat k, snd q) else (fst q, snd q * b ^ nat (- k)))"

definition strip_zeros :: "string \<Rightarrow> string" where
  "strip_zeros s = rev (dropWhile (\<lambda>ch. ch = CHR ''0'') (rev s))"

definition pad_left :: "nat \<Rightarrow> string \<Rightarrow> string" where
  "pad_left w s = replicate (w - length s) (CHR ''0'') @ s"

text \<open>
  The inserter for \<open>double\<close> with the stream's default flags is \<open>printf\<close>'s \<open>%g\<close> with
  precision 6: the value is rounded to six significant digits \<open>D\<close> with decimal exponent
  \<open>X\<close>; fixed notation is used for \<open>-4 \<le> X < 6\<close> and scientific notation otherwise;
  trailing zeros of the fraction, and a decimal point left without a fraction, are
  removed. Rounding is to nearest, ties to even, on the exact binary value.
\<close>

definition fmt_sci :: "nat \<Rightarrow> int \<Rightarrow> string" where
  "fmt_sci D X =
     (let ds = show_nat D; fr = strip_zeros (tl ds)
      in hd ds # (if fr = [] then [] else CHR ''.'' # fr)
         @ [CHR ''e'', if X < 0 then CHR ''-'' else CHR ''+''] @ pad_left 2 (show_nat (nat \<bar>X\<bar>)))"

definition fmt_fixed :: "nat \<Rightarrow> int \<Rightarrow> string" where
  "fmt_fixed D X =
     (let k = nat (5 - X);
          fr = strip_zeros (pad_left k (if k = 0 then [] else show_nat (D mod 10 ^ k)))
      in show_nat (D div 10 ^ k) @ (if fr = [] then [] else CHR ''.'' # fr))"

definition fmt_g6 :: "nat \<times> nat \<Rightarrow> string" where
  "fmt_g6 q =
     (let X0 = floor_log 10 (fst q) (snd q);
          s = scaled 10 (5 - X0) q;
          D0 = round_half_even (fst s) (snd s);
          D = (if 1000000 \<le> D0 then D0 div 10 else D0);
          X = (if 1000000 \<le> D0 then X0 + 1 else X0)
      in if X < - 4 \<or> 6 \<le> X then fmt_sci D X else fmt_fixed D X)"

definition show_double :: "64 word \<Rightarrow> string" where
  "show_double w =
     (if dbl_sign w then ''-'' else '''') @
     (if dbl_expo w = 2047 then (if dbl_frac w = 0 then ''inf'' else ''nan'')
      else if dbl_expo w = 0 \<and> dbl_frac w = 0 then ''0''
      else fmt_g6 (dbl_mag w))"

text \<open>
  \<open>round_to_double neg (n, d)\<close> is the double nearest to the fraction \<open>n / d\<close>, ties to
  even, as \<open>strtod\<close> computes it. A result beyond the largest finite double sets
  \<open>ERANGE\<close>, and so does (the choice is the implementation's; this is glibc's) a
  result below the smallest normal double that is not exact.
\<close>

definition round_to_double :: "bool \<Rightarrow> nat \<times> nat \<Rightarrow> error + 64 word" where
  "round_to_double neg q =
     (if fst q = 0 then Inr (dbl_pack neg 0 0)
      else
        let e0 = floor_log 2 (fst q) (snd q);
            s = scaled 2 (52 - e0) q;
            M0 = round_half_even (fst s) (snd s);
            M = (if M0 = 2 ^ 53 then 2 ^ 52 else M0);
            e = (if M0 = 2 ^ 53 then e0 + 1 else e0);
            t = scaled 2 1074 q
        in if 1023 < e then Inl OutOfRange
           else if - 1022 \<le> e then Inr (dbl_pack neg (nat (e + 1023)) (M - 2 ^ 52))
           else if fst t mod snd t \<noteq> 0 then Inl OutOfRange
           else Inr (dbl_pack neg 0 (fst t div snd t)))"

text \<open>
  \<open>std::stod\<close> runs \<open>strtod\<close>. The parser only passes tokens made of an optional \<open>-\<close>,
  digits, a point and digits, so the exponent, hexadecimal, \<open>inf\<close> and \<open>nan\<close> forms of
  \<open>strtod\<close> are left out. No digit at all is \<open>std::invalid_argument\<close>, \<open>ERANGE\<close> is
  \<open>std::out_of_range\<close>.
\<close>

definition stod :: "string \<Rightarrow> error + 64 word" where
  "stod s =
     (let s0 = dropWhile isspace s;
          neg = (s0 \<noteq> [] \<and> hd s0 = CHR ''-'');
          s1 = (if s0 \<noteq> [] \<and> (hd s0 = CHR ''-'' \<or> hd s0 = CHR ''+'') then tl s0 else s0);
          ip = takeWhile is_digit s1;
          r = dropWhile is_digit s1;
          fp = (if r \<noteq> [] \<and> hd r = CHR ''.'' then takeWhile is_digit (tl r) else [])
      in if ip = [] \<and> fp = [] then Inl InvalidArgument
         else round_to_double neg (dec_val (ip @ fp), 10 ^ length fp))"

text \<open>
  \<open>static_cast<long>\<close> of a double truncates towards zero; the cast is undefined for
  a NaN, an infinity, or a truncated value outside \<open>long\<close>.
\<close>

definition double_to_long :: "64 word \<Rightarrow> error + 64 word" where
  "double_to_long w =
     (let n = int (fst (dbl_mag w) div snd (dbl_mag w));
          t = (if dbl_sign w then - n else n)
      in if dbl_expo w = 2047 \<or> t < - (2 ^ 63) \<or> 2 ^ 63 \<le> t then Inl UndefinedCast
         else Inr (word_of_int t))"

definition get_long :: "JSON \<Rightarrow> error + 64 word" where
  "get_long json =
     (case json of
        JInteger i \<Rightarrow> Inr (scast i)
      | JDouble x \<Rightarrow> double_to_long x
      | _ \<Rightarrow> Inl (TypeMismatch ''Not a numeric type''))"

subsection \<open>The object container\<close>

text \<open>
  \<open>map_assign k v m\<close> is \<open>m[k] = v\<close> on a \<open>std::map\<close>: the member is replaced when the key is
  present and inserted at its sorted place otherwise. \<open>map_subscript k m\<close> is \<open>m[k]\<close> used as
  a reference: it returns the member found, or inserts a default-constructed (\<open>Null\<close>)
  one, together with the container after the call.
\<close>

fun map_assign :: "string \<Rightarrow> JSON \<Rightarrow> (string \<times> JSON) list \<Rightarrow> (string \<times> JSON) list" where
  "map_assign k v [] = [(k, v)]"
| "map_assign k v ((k', v') # m) =
     (if k < k' then (k, v) # (k', v') # m
      else if k = k' then (k, v) # m
      else (k', v') # map_assign k v m)"

definition map_subscript :: "string \<Rightarrow> (string \<times> JSON) list \<Rightarrow> JSON \<times> (string \<times> JSON) list" where
  "map_subscript k m =
     (case map_of m k of Some x \<Rightarrow> (x, m) | None \<Rightarrow> (JNull, map_assign k JNull m))"

text \<open>The invariant of the container: keys strictly increasing, at every level.\<close>

fun wf_JSON :: "JSON \<Rightarrow> bool" where
  "wf_JSON (JArray a) = (\<forall>x \<in> set a. wf_JSON x)"
| "wf_JSON (JObject m) = (sorted_wrt (<) (map fst m) \<and> (\<forall>x \<in> set (map snd m). wf_JSON x))"
| "wf_JSON v = True"

subsection \<open>Keyed access\<close>

definition not_an_object :: "string \<Rightarrow> string" where
  "not_an_object key = ''Field '' @ [CHR 0x22] @ key @ [CHR 0x22] @ '' is not an object.''"

text \<open>
  \<open>JSON::operator[](const std::string&)\<close>, the mutable overload. The call may change the
  value it is applied to, so it returns the value after the call next to its result;
  the result is the member the returned reference designates.
\<close>

definition index_key :: "JSON \<Rightarrow> string \<Rightarrow> (error + JSON) \<times> JSON" where
  "index_key v key =
     (case v of
        JObject m \<Rightarrow> (case map_subscript key m of (x, m') \<Rightarrow> (Inr x, JObject m'))
      | JNull \<Rightarrow> (case map_subscript key [] of (x, m') \<Rightarrow> (Inr x, JObject m'))
      | _ \<Rightarrow> (Inl (TypeMismatch (not_an_object key)), v))"

text \<open>
  A returned \<open>JSON&\<close> points at a member of the object, and whatever the caller does
  through it happens to that member. \<open>via_key key f v\<close> is \<open>f\<close> applied to the reference
  \<open>v[key]\<close>: \<open>f\<close> receives the member and returns its result and the member's new value,
  which \<open>store_member\<close> puts back in place.
\<close>

fun store_member :: "string \<Rightarrow> JSON \<Rightarrow> JSON \<Rightarrow> JSON" where
  "store_member key x (JObject m) = JObject (map_assign key x m)"
| "store_member key x v = v"

definition via_key :: "string \<Rightarrow> (JSON \<Rightarrow> (error + 'a) \<times> JSON) \<Rightarrow> JSON \<Rightarrow> (error + 'a) \<times> JSON" where
  "via_key key f v =
     (case index_key v key of
        (Inl e, v') \<Rightarrow> (Inl e, v')
      | (Inr x, v') \<Rightarrow> (case f x of (r, x') \<Rightarrow> (r, store_member key x' v')))"

text \<open>\<open>JSON& operator=(int i)\<close>: the old payload is released and the tag becomes \<open>Integer\<close>.\<close>

definition assign_int :: "32 word \<Rightarrow> JSON \<Rightarrow> (error + unit) \<times> JSON" where
  "assign_int i v = (Inr (), JInteger i)"

text \<open>\<open>JSON::operator[](const std::string&) const\<close>; \<open>object->at(key)\<close> throws for an absent key.\<close>

definition index_key_const :: "JSON \<Rightarrow> string \<Rightarrow> error + JSON" where
  "index_key_const v key =
     (case v of
        JObject m \<Rightarrow> (case map_of m key of None \<Rightarrow> Inl KeyNotFound | Some x \<Rightarrow> Inr x)
      | _ \<Rightarrow> Inl (TypeMismatch (not_an_object key)))"

section \<open>Type projection\<close>

text \<open>
  \<open>JSON::get<T>()\<close> is \<open>JSONTypeTraits<T>::get(*this)\<close>. For \<open>T = int\<close> and
  \<open>T = std::string\<close> the source gives explicit specialisations, which the compiler
  selects before the partial specialisation for arithmetic types; that one serves the
  remaining arithmetic types, modelled here at \<open>T = long\<close> (64 bits).
\<close>

definition get_int :: "JSON \<Rightarrow> error + 32 word" where
  "get_int json = (case json of JInteger i \<Rightarrow> Inr i | _ \<Rightarrow> Inl (TypeMismatch ''Not an integer''))"

definition get_string :: "JSON \<Rightarrow> error + string" where
  "get_string json = (case json of JString s \<Rightarrow> Inr s | _ \<Rightarrow> Inl (TypeMismatch ''Not a string''))"

section \<open>Parser\<close>

text \<open>
  A \<open>JSONParser\<close> holds the text \<open>data\<close>, which it never changes, and the cursor \<open>pos\<close>,
  \<open>line\<close>, \<open>col\<close>. The text is a parameter of every function below and the cursor is the
  state they pass on. The three counters are \<open>int\<close>s in the source and natural numbers
  here: they only grow, and a text of fewer than \<open>2^31\<close> bytes cannot overflow them.

  \<open>char_at d p\<close> is \<open>data[pos]\<close>: a byte of the text, or the terminating \<open>'\0'\<close> that
  \<open>std::string\<close> guarantees at \<open>pos = size()\<close>. Reading beyond that is undefined; the
  only loop that can get there is the one of \<open>parseString\<close>, which tests for it.
\<close>

record cursor =
  pos :: nat
  line :: nat
  col :: nat

definition char_at :: "string \<Rightarrow> nat \<Rightarrow> char" where
  "char_at d p = (if p < length d then d ! p else CHR 0x00)"

text \<open>\<open>advance1\<close> is one round of the loop of \<open>advance\<close>, that is \<open>advance()\<close>.\<close>

definition advance1 :: "string \<Rightarrow> cursor \<Rightarrow> cursor" where
  "advance1 d c =
     (if char_at d (pos c) = CHR 0x0A
      then c\<lparr>pos := pos c + 1, line := line c + 1, col := 1\<rparr>
      else c\<lparr>pos := pos c + 1, col := col c + 1\<rparr>)"

fun advance :: "string \<Rightarrow> nat \<Rightarrow> cursor \<Rightarrow> cursor" where
  "advance d 0 c = c"
| "advance d (Suc count) c = advance d count (advance1 d c)"

function skipWhitespace :: "string \<Rightarrow> cursor \<Rightarrow> cursor" where
  "skipWhitespace d c =
     (if char_at d (pos c) \<noteq> CHR 0x00 \<and> isspace (char_at d (pos c))
      then skipWhitespace d (advance1 d c) else c)"
  by pat_completeness auto
termination
  by (relation "measure (\<lambda>(d, c). length d - pos c)")
     (auto simp: advance1_def char_at_def split: if_splits)

definition throwError :: "string \<Rightarrow> cursor \<Rightarrow> error" where
  "throwError message c = SyntaxError message (line c) (col c)"

definition unescape :: "char \<Rightarrow> char option" where
  "unescape ch =
     (if ch = CHR 0x5C then Some (CHR 0x5C)
      else if ch = CHR 0x22 then Some (CHR 0x22)
      else if ch = CHR ''/'' then Some (CHR ''/'')
      else if ch = CHR ''b'' then Some (CHR 0x08)
      else if ch = CHR ''f'' then Some (CHR 0x0C)
      else if ch = CHR ''n'' then Some (CHR 0x0A)
      else if ch = CHR ''r'' then Some (CHR 0x0D)
      else if ch = CHR ''t'' then Some (CHR 0x09)
      else None)"

text \<open>The loop of \<open>parseString\<close>, with the string read so far.\<close>

function strLoop :: "string \<Rightarrow> cursor \<Rightarrow> string \<Rightarrow> error + (JSON \<times> cursor)" where
  "strLoop d c str =
     (if length d < pos c then Inl ReadPastEnd
      else if char_at d (pos c) = CHR 0x22 then Inr (JString str, advance1 d c)
      else if char_at d (pos c) = CHR 0x5C then
        (let c1 = advance1 d c in
         case unescape (char_at d (pos c1)) of
           None \<Rightarrow> Inl (throwError ''Invalid escape character in string'' c1)
         | Some e \<Rightarrow> strLoop d (advance1 d c1) (str @ [e]))
      else strLoop d (advance1 d c) (str @ [char_at d (pos c)]))"
  by pat_completeness auto
termination
  by (relation "measure (\<lambda>(d, c, s). Suc (length d) - pos c)")
     (auto simp: advance1_def char_at_def split: if_splits)

definition parseString :: "string \<Rightarrow> cursor \<Rightarrow> error + (JSON \<times> cursor)" where
  "parseString d c = strLoop d (advance1 d c) []"

text \<open>
  \<open>strncmp(&data[pos], lit, n) == 0\<close> for a literal of \<open>n\<close> bytes without \<open>'\0'\<close>: the next
  \<open>n\<close> bytes of the text are the literal.
\<close>

definition strncmp_eq :: "string \<Rightarrow> nat \<Rightarrow> string \<Rightarrow> bool" where
  "strncmp_eq d p lit = (take (length lit) (drop p d) = lit)"

definition parseBoolean :: "string \<Rightarrow> cursor \<Rightarrow> error + (JSON \<times> cursor)" where
  "parseBoolean d c =
     (if strncmp_eq d (pos c) ''true'' then Inr (JBoolean True, advance d 4 c)
      else if strncmp_eq d (pos c) ''false'' then Inr (JBoolean False, advance d 5 c)
      else Inl (throwError ''Unexpected boolean value in JSON'' c))"

definition parseNull :: "string \<Rightarrow> cursor \<Rightarrow> error + (JSON \<times> cursor)" where
  "parseNull d c =
     (if strncmp_eq d (pos c) ''null'' then Inr (JNull, advance d 4 c)
      else Inl (throwError ''Unexpected null value in JSON'' c))"

function skipDigits :: "string \<Rightarrow> cursor \<Rightarrow> cursor" where
  "skipDigits d c = (if is_digit (char_at d (pos c)) then skipDigits d (advance1 d c) else c)"
  by pat_completeness auto
termination
  by (relation "measure (\<lambda>(d, c). length d - pos c)")
     (auto simp: advance1_def char_at_def is_digit_def split: if_splits)

definition substr :: "string \<Rightarrow> nat \<Rightarrow> nat \<Rightarrow> string" where
  "substr d start n = take n (drop start d)"

definition parseNumber :: "string \<Rightarrow> cursor \<Rightarrow> error + (JSON \<times> cursor)" where
  "parseNumber d c =
     (let start = pos c;
          c1 = (if char_at d (pos c) = CHR ''-'' then advance1 d c else c);
          c2 = skipDigits d c1
      in if char_at d (pos c2) = CHR ''.'' then
           (let c3 = skipDigits d (advance1 d c2) in
            case stod (substr d start (pos c3 - start)) of
              Inl e \<Rightarrow> Inl e
            | Inr x \<Rightarrow> Inr (JDouble x, c3))
         else
           (case stoi (substr d start (pos c2 - start)) of
              Inl e \<Rightarrow> Inl e
            | Inr i \<Rightarrow> Inr (JInteger i, c2)))"

declare skipWhitespace.simps [simp del] strLoop.simps [simp del] skipDigits.simps [simp del]

lemma pos_advance1 [simp]: "pos (advance1 d c) = Suc (pos c)"
  by (simp add: advance1_def)

lemma pos_advance [simp]: "pos (advance d n c) = pos c + n"
  by (induction n arbitrary: c) simp_all

lemma char_at_nonzero: "char_at d p \<noteq> CHR 0x00 \<Longrightarrow> p < length d"
  by (simp add: char_at_def split: if_splits)

lemma char_at_eq_bound: "char_at d p = ch \<Longrightarrow> ch \<noteq> CHR 0x00 \<Longrightarrow> p < length d"
  by (auto simp: char_at_def split: if_splits)

lemma skipWhitespace_pos: "pos c \<le> pos (skipWhitespace d c)"
proof (induction d c rule: skipWhitespace.induct)
  case (1 d c)
  then show ?case
    by (auto simp: skipWhitespace.simps[of d c] intro: Suc_leD)
qed

lemma skipWhitespace_bound: "pos c \<le> length d \<Longrightarrow> pos (skipWhitespace d c) \<le> length d"
proof (induction d c rule: skipWhitespace.induct)
  case (1 d c)
  show ?case
  proof (cases "char_at d (pos c) \<noteq> CHR 0x00 \<and> isspace (char_at d (pos c))")
    case True
    then have "pos c < length d" by (auto dest: char_at_nonzero)
    then have "pos (advance1 d c) \<le> length d" by simp
    with "1.IH" True show ?thesis by (simp add: skipWhitespace.simps[of d c])
  next
    case False
    with "1.prems" show ?thesis by (auto simp: skipWhitespace.simps[of d c])
  qed
qed

lemma skipDigits_pos: "pos c \<le> pos (skipDigits d c)"
proof (induction d c rule: skipDigits.induct)
  case (1 d c)
  then show ?case
    by (auto simp: skipDigits.simps[of d c] intro: Suc_leD)
qed

lemma is_digit_nonzero: "is_digit ch \<Longrightarrow> ch \<noteq> CHR 0x00"
  by (auto simp: is_digit_def less_eq_char_def)

lemma skipDigits_bound: "pos c \<le> length d \<Longrightarrow> pos (skipDigits d c) \<le> length d"
proof (induction d c rule: skipDigits.induct)
  case (1 d c)
  show ?case
  proof (cases "is_digit (char_at d (pos c))")
    case True
    then have "pos c < length d" by (auto dest: is_digit_nonzero char_at_nonzero)
    then have "pos (advance1 d c) \<le> length d" by simp
    with "1.IH" True show ?thesis by (simp add: skipDigits.simps[of d c])
  next
    case False
    with "1.prems" show ?thesis by (auto simp: skipDigits.simps[of d c])
  qed
qed

lemma strLoop_progress:
  "strLoop d c s = Inr (v, c') \<Longrightarrow> pos c < pos c' \<and> pos c' \<le> length d"
proof (induction d c s rule: strLoop.induct)
  case (1 d c str)
  from "1.prems" have le: "\<not> length d < pos c"
    by (auto simp: strLoop.simps[of d c] split: if_splits)
  show ?case
  proof (cases "char_at d (pos c) = CHR 0x22")
    case True
    then have "pos c < length d" by (auto dest: char_at_eq_bound)
    with True le "1.prems" show ?thesis
      by (auto simp: strLoop.simps[of d c])
  next
    case q: False
    show ?thesis
    proof (cases "char_at d (pos c) = CHR 0x5C")
      case True
      with q le "1.prems" obtain e where
        e: "unescape (char_at d (pos (advance1 d c))) = Some e"
        and r: "strLoop d (advance1 d (advance1 d c)) (str @ [e]) = Inr (v, c')"
        by (auto simp: strLoop.simps[of d c] Let_def split: option.splits)
      from "1.IH"(1)[OF le q True refl e r] show ?thesis by simp
    next
      case False
      with q le "1.prems" have
        r: "strLoop d (advance1 d c) (str @ [char_at d (pos c)]) = Inr (v, c')"
        by (auto simp: strLoop.simps[of d c])
      from "1.IH"(2)[OF le q False r] show ?thesis by simp
    qed
  qed
qed

lemma parseString_progress:
  "parseString d c = Inr (v, c') \<Longrightarrow> pos c < pos c' \<and> pos c' \<le> length d"
  unfolding parseString_def by (drule strLoop_progress) simp

lemma strncmp_eq_bound:
  assumes "strncmp_eq d p lit" and "lit \<noteq> []"
  shows "p + length lit \<le> length d"
proof -
  from assms(1) have "length (take (length lit) (drop p d)) = length lit"
    by (simp add: strncmp_eq_def)
  then have "length lit \<le> length d - p" by simp
  moreover from assms(2) have "0 < length lit" by simp
  ultimately show ?thesis by linarith
qed

lemma parseBoolean_progress:
  "parseBoolean d c = Inr (v, c') \<Longrightarrow> pos c < pos c' \<and> pos c' \<le> length d"
  by (auto simp: parseBoolean_def split: if_splits dest!: strncmp_eq_bound)

lemma parseNull_progress:
  "parseNull d c = Inr (v, c') \<Longrightarrow> pos c < pos c' \<and> pos c' \<le> length d"
  by (auto simp: parseNull_def split: if_splits dest!: strncmp_eq_bound)

lemma stoi_Nil: "stoi [] = Inl InvalidArgument"
  by (simp add: stoi_def)

lemma parseNumber_progress:
  assumes "parseNumber d c = Inr (v, c')"
  shows "pos c < pos c' \<and> pos c' \<le> length d"
proof -
  define c1 where "c1 = (if char_at d (pos c) = CHR ''-'' then advance1 d c else c)"
  define c2 where "c2 = skipDigits d c1"
  have c1: "pos c \<le> pos c1" by (simp add: c1_def)
  have c2: "pos c1 \<le> pos c2" unfolding c2_def by (rule skipDigits_pos)
  show ?thesis
  proof (cases "char_at d (pos c2) = CHR ''.''")
    case True
    then have b: "pos c2 < length d" by (auto dest: char_at_eq_bound)
    from True assms have "c' = skipDigits d (advance1 d c2)"
      by (auto simp: parseNumber_def Let_def c1_def c2_def split: sum.splits)
    moreover have "pos (advance1 d c2) \<le> pos (skipDigits d (advance1 d c2))"
      by (rule skipDigits_pos)
    moreover from b have "pos (skipDigits d (advance1 d c2)) \<le> length d"
      by (intro skipDigits_bound) simp
    ultimately show ?thesis using c1 c2 by simp
  next
    case False
    with assms have c': "c' = c2" and ok: "\<exists>i. stoi (substr d (pos c) (pos c2 - pos c)) = Inr i"
      by (auto simp: parseNumber_def Let_def c1_def c2_def split: sum.splits)
    have lt: "pos c < pos c2"
    proof (rule ccontr)
      assume "\<not> pos c < pos c2"
      then have "substr d (pos c) (pos c2 - pos c) = []" by (simp add: substr_def)
      with ok show False by (simp add: stoi_Nil)
    qed
    have "pos c \<le> length d"
    proof (rule ccontr)
      assume a: "\<not> pos c \<le> length d"
      then have "char_at d (pos c) = CHR 0x00" by (simp add: char_at_def)
      then have "c2 = c"
        by (simp add: c2_def c1_def skipDigits.simps[of d c] is_digit_def less_eq_char_def)
      with lt show False by simp
    qed
    then have "pos c1 \<le> length d"
      by (auto simp: c1_def dest: char_at_eq_bound)
    then have "pos c2 \<le> length d" unfolding c2_def by (rule skipDigits_bound)
    with lt c' show ?thesis by simp
  qed
qed

text \<open>
  The productions that call each other. \<open>objectLoop\<close> and \<open>arrayLoop\<close> are the \<open>while\<close>
  loops of \<open>parseObject\<close> and \<open>parseArray\<close>, with the container built so far.
\<close>

function parseValue :: "string \<Rightarrow> cursor \<Rightarrow> error + (JSON \<times> cursor)"
  and parseObject :: "string \<Rightarrow> cursor \<Rightarrow> error + (JSON \<times> cursor)"
  and objectLoop :: "string \<Rightarrow> cursor \<Rightarrow> (string \<times> JSON) list \<Rightarrow> error + (JSON \<times> cursor)"
  and parseArray :: "string \<Rightarrow> cursor \<Rightarrow> error + (JSON \<times> cursor)"
  and arrayLoop :: "string \<Rightarrow> cursor \<Rightarrow> JSON list \<Rightarrow> error + (JSON \<times> cursor)"
where
  "parseValue d c0 =
     (let c = skipWhitespace d c0; ch = char_at d (pos c) in
      if ch = CHR ''{'' then parseObject d c
      else if ch = CHR ''['' then parseArray d c
      else if ch = CHR 0x22 then parseString d c
      else if ch = CHR ''t'' \<or> ch = CHR ''f'' then parseBoolean d c
      else if ch = CHR ''n'' then parseNull d c
      else if ch = CHR ''-'' \<or> (CHR ''0'' \<le> ch \<and> ch \<le> CHR ''9'') then parseNumber d c
      else Inl (throwError ''Unexpected character in JSON'' c))"
| "parseObject d c = objectLoop d (skipWhitespace d (advance1 d c)) []"
| "objectLoop d c obj =
     (if char_at d (pos c) = CHR ''}'' then Inr (JObject obj, advance1 d c)
      else case parseString d c of
        Inl e \<Rightarrow> Inl e
      | Inr (k, c1) \<Rightarrow>
          (case get_string k of
             Inl e \<Rightarrow> Inl e
           | Inr key \<Rightarrow>
               (let c2 = skipWhitespace d c1 in
                if char_at d (pos c2) \<noteq> CHR '':'' then
                  Inl (throwError ''Expected ':' in JSON object'' c2)
                else
                  (case parseValue d (advance1 d c2) of
                     Inl e \<Rightarrow> Inl e
                   | Inr (v, c3) \<Rightarrow>
                       (let c4 = skipWhitespace d c3;
                            c5 = (if char_at d (pos c4) = CHR '',''
                                  then skipWhitespace d (advance1 d c4) else c4)
                        in objectLoop d c5 (map_assign key v obj))))))"
| "parseArray d c = arrayLoop d (skipWhitespace d (advance1 d c)) []"
| "arrayLoop d c arr =
     (if char_at d (pos c) = CHR '']'' then Inr (JArray arr, advance1 d c)
      else case parseValue d c of
        Inl e \<Rightarrow> Inl e
      | Inr (v, c1) \<Rightarrow>
          (let c2 = skipWhitespace d c1;
               c3 = (if char_at d (pos c2) = CHR '','' then skipWhitespace d (advance1 d c2) else c2)
           in arrayLoop d c3 (arr @ [v])))"
  by pat_completeness auto

termination
proof -
  have progress:
    "parseValue_parseObject_objectLoop_parseArray_arrayLoop_dom (Inl (Inl (d, c0))) \<Longrightarrow>
       \<forall>v c'. parseValue d c0 = Inr (v, c') \<longrightarrow> pos c0 < pos c' \<and> pos c' \<le> length d"
    "parseValue_parseObject_objectLoop_parseArray_arrayLoop_dom (Inl (Inr (d, c))) \<Longrightarrow>
       \<forall>v c'. parseObject d c = Inr (v, c') \<longrightarrow> pos c < pos c' \<and> pos c' \<le> length d"
    "parseValue_parseObject_objectLoop_parseArray_arrayLoop_dom (Inr (Inl (d, c, obj))) \<Longrightarrow>
       \<forall>v c'. objectLoop d c obj = Inr (v, c') \<longrightarrow> pos c < pos c' \<and> pos c' \<le> length d"
    "parseValue_parseObject_objectLoop_parseArray_arrayLoop_dom (Inr (Inr (Inl (d, c)))) \<Longrightarrow>
       \<forall>v c'. parseArray d c = Inr (v, c') \<longrightarrow> pos c < pos c' \<and> pos c' \<le> length d"
    "parseValue_parseObject_objectLoop_parseArray_arrayLoop_dom (Inr (Inr (Inr (d, c, arr)))) \<Longrightarrow>
       \<forall>v c'. arrayLoop d c arr = Inr (v, c') \<longrightarrow> pos c < pos c' \<and> pos c' \<le> length d"
    for d c0 c obj arr
  proof (induct rule: parseValue_parseObject_objectLoop_parseArray_arrayLoop.pinduct)
    case (1 d c0)
    define c where "c = skipWhitespace d c0"
    have le: "pos c0 \<le> pos c" unfolding c_def by (rule skipWhitespace_pos)
    show ?case
    proof (intro allI impI)
      fix v c'
      assume "parseValue d c0 = Inr (v, c')"
      then have r: "(if char_at d (pos c) = CHR ''{'' then parseObject d c
        else if char_at d (pos c) = CHR ''['' then parseArray d c
        else if char_at d (pos c) = CHR 0x22 then parseString d c
        else if char_at d (pos c) = CHR ''t'' \<or> char_at d (pos c) = CHR ''f'' then parseBoolean d c
        else if char_at d (pos c) = CHR ''n'' then parseNull d c
        else if char_at d (pos c) = CHR ''-'' \<or> (CHR ''0'' \<le> char_at d (pos c) \<and> char_at d (pos c) \<le> CHR ''9'')
          then parseNumber d c
        else Inl (throwError ''Unexpected character in JSON'' c)) = Inr (v, c')"
        unfolding parseValue.psimps[OF "1.hyps"(1)] Let_def c_def .
      have "pos c < pos c' \<and> pos c' \<le> length d"
      proof (cases "char_at d (pos c) = CHR ''{''")
        case True
        with r "1.hyps"(2)[OF c_def refl True] show ?thesis by simp
      next
        case no: False
        show ?thesis
        proof (cases "char_at d (pos c) = CHR ''[''")
          case True
          with no r "1.hyps"(3)[OF c_def refl no True] show ?thesis by simp
        next
          case False
          with no r show ?thesis
            by (auto split: if_splits
                     dest: parseString_progress parseBoolean_progress parseNull_progress
                           parseNumber_progress)
        qed
      qed
      with le show "pos c0 < pos c' \<and> pos c' \<le> length d" by simp
    qed
  next
    case (2 d c)
    have "pos c < pos (skipWhitespace d (advance1 d c))"
      using skipWhitespace_pos[of "advance1 d c" d] by simp
    with 2 show ?case
      by (simp add: parseObject.psimps[OF "2.hyps"(1)]) (meson less_trans)
  next
    case (3 d c obj)
    show ?case
    proof (intro allI impI)
      fix v c'
      assume r: "objectLoop d c obj = Inr (v, c')"
      show "pos c < pos c' \<and> pos c' \<le> length d"
      proof (cases "char_at d (pos c) = CHR ''}''")
        case True
        then have "pos c < length d" by (auto dest: char_at_eq_bound)
        with True r show ?thesis
          by (auto simp: objectLoop.psimps[OF "3.hyps"(1)])
      next
        case False
        with r obtain k c1 where ps: "parseString d c = Inr (k, c1)"
          by (auto simp: objectLoop.psimps[OF "3.hyps"(1)] split: sum.splits)
        with False r obtain key where gs: "get_string k = Inr key"
          by (auto simp: objectLoop.psimps[OF "3.hyps"(1)] split: sum.splits)
        define c2 where "c2 = skipWhitespace d c1"
        from False r ps gs have colon: "\<not> char_at d (pos c2) \<noteq> CHR '':''"
          by (auto simp: objectLoop.psimps[OF "3.hyps"(1)] Let_def c2_def split: if_splits)
        with False r ps gs obtain x c3 where pv: "parseValue d (advance1 d c2) = Inr (x, c3)"
          by (auto simp: objectLoop.psimps[OF "3.hyps"(1)] Let_def c2_def split: sum.splits)
        define c4 where "c4 = skipWhitespace d c3"
        define c5 where "c5 = (if char_at d (pos c4) = CHR '','' then skipWhitespace d (advance1 d c4) else c4)"
        from False r ps gs colon pv have rec: "objectLoop d c5 (map_assign key x obj) = Inr (v, c')"
          by (auto simp: objectLoop.psimps[OF "3.hyps"(1)] Let_def c2_def c4_def c5_def)
        from ps have p1: "pos c < pos c1" by (auto dest: parseString_progress)
        have p2: "pos c1 \<le> pos c2" unfolding c2_def by (rule skipWhitespace_pos)
        from "3.hyps"(2)[OF False ps refl gs c2_def colon] pv
        have p3: "pos (advance1 d c2) < pos c3" by simp
        have p4: "pos c3 \<le> pos c4" unfolding c4_def by (rule skipWhitespace_pos)
        have p5: "pos c4 \<le> pos c5"
          using skipWhitespace_pos[of "advance1 d c4" d] by (simp add: c5_def)
        from "3.hyps"(3)[OF False ps refl gs c2_def colon pv refl c4_def c5_def] rec
        have "pos c5 < pos c' \<and> pos c' \<le> length d" by simp
        with p1 p2 p3 p4 p5 show ?thesis by simp
      qed
    qed
  next
    case (4 d c)
    have "pos c < pos (skipWhitespace d (advance1 d c))"
      using skipWhitespace_pos[of "advance1 d c" d] by simp
    with 4 show ?case
      by (simp add: parseArray.psimps[OF "4.hyps"(1)]) (meson less_trans)
  next
    case (5 d c arr)
    show ?case
    proof (intro allI impI)
      fix v c'
      assume r: "arrayLoop d c arr = Inr (v, c')"
      show "pos c < pos c' \<and> pos c' \<le> length d"
      proof (cases "char_at d (pos c) = CHR '']''")
        case True
        then have "pos c < length d" by (auto dest: char_at_eq_bound)
        with True r show ?thesis
          by (auto simp: arrayLoop.psimps[OF "5.hyps"(1)])
      next
        case False
        with r obtain x c1 where pv: "parseValue d c = Inr (x, c1)"
          by (auto simp: arrayLoop.psimps[OF "5.hyps"(1)] split: sum.splits)
        define c2 where "c2 = skipWhitespace d c1"
        define c3 where "c3 = (if char_at d (pos c2) = CHR '','' then skipWhitespace d (advance1 d c2) else c2)"
        from False r pv have rec: "arrayLoop d c3 (arr @ [x]) = Inr (v, c')"
          by (auto simp: arrayLoop.psimps[OF "5.hyps"(1)] Let_def c2_def c3_def)
        from "5.hyps"(2)[OF False] pv have p1: "pos c < pos c1" by simp
        have p2: "pos c1 \<le> pos c2" unfolding c2_def by (rule skipWhitespace_pos)
        have p3: "pos c2 \<le> pos c3"
          using skipWhitespace_pos[of "advance1 d c2" d] by (simp add: c3_def)
        from "5.hyps"(3)[OF False pv refl c2_def c3_def] rec
        have "pos c3 < pos c' \<and> pos c' \<le> length d" by simp
        with p1 p2 p3 show ?thesis by simp
      qed
    qed
  qed
  show ?thesis
    proof (relation "measure (\<lambda>x. case x of
       Inl (Inl (d, c)) \<Rightarrow> 4 * (Suc (length d) - pos c) + 1
     | Inl (Inr (d, c)) \<Rightarrow> (if pos c < length d then 4 * (Suc (length d) - pos c) else 3)
     | Inr (Inl (d, c, obj)) \<Rightarrow> 4 * (Suc (length d) - pos c) + 2
     | Inr (Inr (Inl (d, c))) \<Rightarrow> (if pos c < length d then 4 * (Suc (length d) - pos c) else 3)
     | Inr (Inr (Inr (d, c, arr))) \<Rightarrow> 4 * (Suc (length d) - pos c) + 2)", goal_cases)
    case 1
    show ?case by simp
  next
    case (2 d c0 x xa)
    then have "char_at d (pos x) = CHR ''{''" by simp
    then have "pos x < length d" by (rule char_at_eq_bound) simp
    moreover have "pos c0 \<le> pos x" unfolding 2 by (rule skipWhitespace_pos)
    ultimately show ?case by (simp; arith)
  next
    case (3 d c0 x xa)
    then have "char_at d (pos x) = CHR ''[''" by simp
    then have "pos x < length d" by (rule char_at_eq_bound) simp
    moreover have "pos c0 \<le> pos x" unfolding 3 by (rule skipWhitespace_pos)
    ultimately show ?case by (simp; arith)
  next
    case (4 d c)
    have "pos c < pos (skipWhitespace d (advance1 d c))"
      using skipWhitespace_pos[of "advance1 d c" d] by simp
    then show ?case by auto
  next
    case (5 d c obj b x y ba xa)
    then have "pos c < pos y \<and> pos y \<le> length d" by (auto dest: parseString_progress)
    moreover have "pos y \<le> pos xa" unfolding 5 by (rule skipWhitespace_pos)
    ultimately show ?case by (simp; arith)
  next
    case (6 d c obj b x y ba xa bb xb ya xc xd)
    then have "pos c < pos y" by (auto dest: parseString_progress)
    moreover have "pos y \<le> pos xa" unfolding 6 by (rule skipWhitespace_pos)
    moreover from 6 progress(1)[of d "advance1 d xa"]
    have "pos (advance1 d xa) < pos ya \<and> pos ya \<le> length d" by auto
    moreover have "pos ya \<le> pos xc" unfolding 6 by (rule skipWhitespace_pos)
    moreover have "pos xc \<le> pos xd"
      using skipWhitespace_pos[of "advance1 d xc" d] by (simp add: 6)
    ultimately show ?case by (simp; arith)
  next
    case (7 d c)
    have "pos c < pos (skipWhitespace d (advance1 d c))"
      using skipWhitespace_pos[of "advance1 d c" d] by simp
    then show ?case by auto
  next
    case (8 d c arr)
    show ?case by simp
  next
    case (9 d c arr b x y xa xb)
    from 9 progress(1)[of d c]
    have "pos c < pos y \<and> pos y \<le> length d" by auto
    moreover have "pos y \<le> pos xa" unfolding 9 by (rule skipWhitespace_pos)
    moreover have "pos xa \<le> pos xb"
      using skipWhitespace_pos[of "advance1 d xa" d] by (simp add: 9)
    ultimately show ?case by (simp; arith)
  qed
qed

declare parseValue.simps [simp del] parseObject.simps [simp del] objectLoop.simps [simp del]
  parseArray.simps [simp del] arrayLoop.simps [simp del]

text \<open>
  \<open>JSONParser::parse\<close>: the constructor sets the cursor to the first byte, line 1,
  column 1; the value is returned and the parser, with its cursor, is dropped.
\<close>

definition initial :: cursor where
  "initial = \<lparr>pos = 0, line = 1, col = 1\<rparr>"

definition parse :: "string \<Rightarrow> error + JSON" where
  "parse d =
     (case parseValue d (skipWhitespace d initial) of
        Inl e \<Rightarrow> Inl e
      | Inr (v, c) \<Rightarrow> Inr v)"

section \<open>Serializer\<close>

text \<open>
  The \<open>std::ostringstream\<close> the serializer writes to is the text written so far and
  the one formatting flag the serializer ever changes: \<open>std::hex\<close>, which stays set
  once \<open>dumpString\<close> has written a \<open>\u\<close> escape. (\<open>std::setfill\<close> stays as well, but a
  fill character only shows under a width, and \<open>std::setw\<close> lasts for one insertion.)

  Whether plain \<open>char\<close> is signed is the platform's choice; it decides the comparison
  \<open>ch < 32\<close> and the value of \<open>static_cast<int>(ch)\<close> for the bytes from \<open>0x80\<close> on. It is
  the first parameter, \<open>sc\<close>, of the functions below.
\<close>

record ostream =
  out :: string
  hex :: bool

definition put :: "string \<Rightarrow> ostream \<Rightarrow> ostream" where
  "put s oss = oss\<lparr>out := out oss @ s\<rparr>"

definition char_int :: "bool \<Rightarrow> char \<Rightarrow> int" where
  "char_int sc ch = (if sc \<and> 128 \<le> (of_char ch :: int) then of_char ch - 256 else of_char ch)"

text \<open>One round of the loop of \<open>dumpString\<close>.\<close>

definition dumpChar :: "bool \<Rightarrow> char \<Rightarrow> ostream \<Rightarrow> ostream" where
  "dumpChar sc ch oss =
     (if ch = CHR 0x22 then put [CHR 0x5C, CHR 0x22] oss
      else if ch = CHR 0x5C then put [CHR 0x5C, CHR 0x5C] oss
      else if ch = CHR 0x08 then put [CHR 0x5C, CHR ''b''] oss
      else if ch = CHR 0x0C then put [CHR 0x5C, CHR ''f''] oss
      else if ch = CHR 0x0A then put [CHR 0x5C, CHR ''n''] oss
      else if ch = CHR 0x0D then put [CHR 0x5C, CHR ''r''] oss
      else if ch = CHR 0x09 then put [CHR 0x5C, CHR ''t''] oss
      else if char_int sc ch < 32 \<or> char_int sc ch = 127 then
        put (pad_left 4 (show_int True (word_of_int (char_int sc ch))))
          ((put [CHR 0x5C, CHR ''u''] oss)\<lparr>hex := True\<rparr>)
      else put [ch] oss)"

definition dumpString :: "bool \<Rightarrow> string \<Rightarrow> ostream \<Rightarrow> ostream" where
  "dumpString sc str oss =
     put [CHR 0x22] (foldl (\<lambda>os ch. dumpChar sc ch os) (put [CHR 0x22] oss) str)"

definition hasComplexChildren :: "JSON list \<Rightarrow> bool" where
  "hasComplexChildren arr = (\<exists>item \<in> set arr. getType item = Object \<or> getType item = Array)"

definition spaces :: "int \<Rightarrow> string" where
  "spaces n = replicate (nat n) (CHR 0x20)"

text \<open>
  \<open>dumpItems\<close> and \<open>dumpMembers\<close> are the \<open>for\<close> loops of \<open>dumpArray\<close> and \<open>dumpObject\<close> over
  the elements still to be written; an element is the last one when none follows.
\<close>

function (sequential) dumpValue :: "bool \<Rightarrow> JSON \<Rightarrow> ostream \<Rightarrow> int \<Rightarrow> int \<Rightarrow> ostream"
  and dumpArray :: "bool \<Rightarrow> JSON list \<Rightarrow> ostream \<Rightarrow> int \<Rightarrow> int \<Rightarrow> ostream"
  and dumpItems :: "bool \<Rightarrow> bool \<Rightarrow> JSON list \<Rightarrow> ostream \<Rightarrow> int \<Rightarrow> int \<Rightarrow> ostream"
  and dumpObject :: "bool \<Rightarrow> (string \<times> JSON) list \<Rightarrow> ostream \<Rightarrow> int \<Rightarrow> int \<Rightarrow> ostream"
  and dumpMembers :: "bool \<Rightarrow> (string \<times> JSON) list \<Rightarrow> ostream \<Rightarrow> int \<Rightarrow> int \<Rightarrow> ostream"
where
  "dumpValue sc JNull oss level indent = put ''null'' oss"
| "dumpValue sc (JBoolean b) oss level indent = put (if b then ''true'' else ''false'') oss"
| "dumpValue sc (JInteger i) oss level indent = put (show_int (hex oss) i) oss"
| "dumpValue sc (JDouble x) oss level indent = put (show_double x) oss"
| "dumpValue sc (JString s) oss level indent = dumpString sc s oss"
| "dumpValue sc (JArray arr) oss level indent = dumpArray sc arr oss level indent"
| "dumpValue sc (JObject obj) oss level indent = dumpObject sc obj oss level indent"
| "dumpArray sc arr oss level indent =
     (let prettyPrint = (hasComplexChildren arr \<and> 0 < indent);
          o1 = put ''['' oss;
          o2 = (if prettyPrint then put [CHR 0x0A] o1 else o1);
          o3 = dumpItems sc prettyPrint arr o2 level indent;
          o4 = (if prettyPrint then put (spaces level) o3 else o3)
      in put '']'' o4)"
| "dumpItems sc prettyPrint [] oss level indent = oss"
| "dumpItems sc prettyPrint (item # rest) oss level indent =
     (let o1 = (if prettyPrint then put (spaces (level + indent)) oss else oss);
          o2 = dumpValue sc item o1 (level + indent) indent;
          o3 = (if rest \<noteq> [] then put (if \<not> prettyPrint then '', '' else '','') o2 else o2);
          o4 = (if prettyPrint then put [CHR 0x0A] o3 else o3)
      in dumpItems sc prettyPrint rest o4 level indent)"
| "dumpObject sc obj oss level indent =
     (let o1 = put ''{'' oss;
          o2 = (if 0 < indent then put [CHR 0x0A] o1 else o1);
          o3 = dumpMembers sc obj o2 level indent;
          o4 = (if 0 < indent then put (spaces level) o3 else o3)
      in put ''}'' o4)"
| "dumpMembers sc [] oss level indent = oss"
| "dumpMembers sc ((key, value) # rest) oss level indent =
     (let o1 = (if 0 < indent then put (spaces (level + indent)) oss else oss);
          o2 = put '':'' (dumpString sc key o1);
          o3 = (if 0 < indent then put '' '' o2 else o2);
          o4 = dumpValue sc value o3 (level + indent) indent;
          o5 = (if rest \<noteq> [] then put '','' o4 else o4);
          o6 = (if 0 < indent then put [CHR 0x0A] o5 else o5)
      in dumpMembers sc rest o6 level indent)"
  by pat_completeness auto
termination
  by (relation "measure (\<lambda>x. case x of
      Inl (Inl (sc, v, r)) \<Rightarrow> 3 * size v
    | Inl (Inr (sc, arr, r)) \<Rightarrow> 3 * size_list size arr + 2
    | Inr (Inl (sc, pp, arr, r)) \<Rightarrow> 3 * size_list size arr + 1
    | Inr (Inr (Inl (sc, obj, r))) \<Rightarrow> 3 * size_list (size_prod (\<lambda>x. 0) size) obj + 2
    | Inr (Inr (Inr (sc, obj, r))) \<Rightarrow> 3 * size_list (size_prod (\<lambda>x. 0) size) obj + 1)")
     simp_all

text \<open>\<open>JSON::dump\<close>; the default argument is \<open>indent = 4\<close>.\<close>

definition dump :: "bool \<Rightarrow> JSON \<Rightarrow> int \<Rightarrow> string" where
  "dump sc v indent = out (dumpValue sc v \<lparr>out = [], hex = False\<rparr> 0 indent)"

section \<open>Values whose text is read back\<close>

text \<open>
  \<open>needs_u sc ch\<close> says that \<open>dumpString\<close> takes its \<open>default\<close> branch with the hexadecimal
  escape for the byte \<open>ch\<close>; \<open>esc ch\<close> is what it writes for any other byte.
\<close>

definition esc :: "char \<Rightarrow> string" where
  "esc ch =
     (if ch = CHR 0x22 then [CHR 0x5C, CHR 0x22]
      else if ch = CHR 0x5C then [CHR 0x5C, CHR 0x5C]
      else if ch = CHR 0x08 then [CHR 0x5C, CHR ''b'']
      else if ch = CHR 0x0C then [CHR 0x5C, CHR ''f'']
      else if ch = CHR 0x0A then [CHR 0x5C, CHR ''n'']
      else if ch = CHR 0x0D then [CHR 0x5C, CHR ''r'']
      else if ch = CHR 0x09 then [CHR 0x5C, CHR ''t'']
      else [ch])"

definition needs_u :: "bool \<Rightarrow> char \<Rightarrow> bool" where
  "needs_u sc ch =
     (ch \<notin> {CHR 0x22, CHR 0x5C, CHR 0x08, CHR 0x0C, CHR 0x0A, CHR 0x0D, CHR 0x09} \<and>
      (char_int sc ch < 32 \<or> char_int sc ch = 127))"

text \<open>A number token ends where the text ends or goes on with neither a digit nor a point.\<close>

definition number_ends :: "string \<Rightarrow> bool" where
  "number_ends rest = (rest = [] \<or> (\<not> is_digit (hd rest) \<and> hd rest \<noteq> CHR ''.''))"

text \<open>
  \<open>value_ends v rest\<close>: the text \<open>rest\<close> does not go on with the number \<open>v\<close>. An \<open>Integer\<close> is
  read up to the first byte that is not a digit, and becomes a \<open>Double\<close> when that byte
  is a point; the digits after the point are read up to the first byte that is not a
  digit. Any other value ends with its own last byte.
\<close>

definition value_ends :: "JSON \<Rightarrow> string \<Rightarrow> bool" where
  "value_ends v rest =
     (case v of
        JInteger i \<Rightarrow> number_ends rest
      | JDouble x \<Rightarrow> rest = [] \<or> \<not> is_digit (hd rest)
      | _ \<Rightarrow> True)"

text \<open>
  \<open>point_number s\<close>: the text \<open>s\<close> is an optional minus sign, digits, a point and digits
  up to its end, beginning with the sign or a digit: a number that \<open>parseNumber\<close> reads to
  its last byte and hands to \<open>std::stod\<close>. The text of a double with an exponent, of an
  infinity or a NaN, or without a point, is not of this kind.
\<close>

definition point_number :: "string \<Rightarrow> bool" where
  "point_number s =
     (let s1 = (if s \<noteq> [] \<and> hd s = CHR ''-'' then tl s else s);
          r = dropWhile is_digit s1
      in s \<noteq> [] \<and> (hd s = CHR ''-'' \<or> is_digit (hd s)) \<and>
         r \<noteq> [] \<and> hd r = CHR ''.'' \<and> (\<forall>ch \<in> set (tl r). is_digit ch))"

text \<open>
  \<open>clean sc v\<close>: every \<open>Double\<close> node of \<open>v\<close> is written as a number with a point that
  \<open>std::stod\<close> reads back as the same double, and no string or key of \<open>v\<close> has a byte that
  is written as a hexadecimal escape. \<open>text_of\<close>, \<open>items_text\<close> and \<open>members_text\<close> are what
  the serializer appends to a stream whose \<open>hex\<close> flag is \<open>hx\<close>.
\<close>

fun clean :: "bool \<Rightarrow> JSON \<Rightarrow> bool" where
  "clean sc (JDouble x) = (point_number (show_double x) \<and> stod (show_double x) = Inr x)"
| "clean sc (JString s) = (\<forall>ch \<in> set s. \<not> needs_u sc ch)"
| "clean sc (JArray arr) = (\<forall>x \<in> set arr. clean sc x)"
| "clean sc (JObject obj) =
     (\<forall>m \<in> set obj. (\<forall>ch \<in> set (fst m). \<not> needs_u sc ch) \<and> clean sc (snd m))"
| "clean sc v = True"

definition stream :: "bool \<Rightarrow> ostream" where
  "stream hx = \<lparr>out = [], hex = hx\<rparr>"

definition prepend :: "string \<Rightarrow> ostream \<Rightarrow> ostream" where
  "prepend p oss = oss\<lparr>out := p @ out oss\<rparr>"

definition text_of :: "bool \<Rightarrow> bool \<Rightarrow> JSON \<Rightarrow> int \<Rightarrow> int \<Rightarrow> string" where
  "text_of sc hx v level indent = out (dumpValue sc v (stream hx) level indent)"

definition items_text :: "bool \<Rightarrow> bool \<Rightarrow> bool \<Rightarrow> JSON list \<Rightarrow> int \<Rightarrow> int \<Rightarrow> string" where
  "items_text sc hx pp arr level indent = out (dumpItems sc pp arr (stream hx) level indent)"

definition members_text :: "bool \<Rightarrow> bool \<Rightarrow> (string \<times> JSON) list \<Rightarrow> int \<Rightarrow> int \<Rightarrow> string" where
  "members_text sc hx obj level indent = out (dumpMembers sc obj (stream hx) level indent)"

definition hex_after :: "bool \<Rightarrow> bool \<Rightarrow> JSON \<Rightarrow> int \<Rightarrow> int \<Rightarrow> bool" where
  "hex_after sc hx v level indent = hex (dumpValue sc v (stream hx) level indent)"

definition string_text :: "bool \<Rightarrow> string \<Rightarrow> string" where
  "string_text sc s = out (dumpString sc s (stream False))"

text \<open>
  The texts of the elements of an array and of the members of an object, in the
  order they are written, each in the state of the stream that its predecessors leave.
\<close>

fun item_texts :: "bool \<Rightarrow> bool \<Rightarrow> JSON list \<Rightarrow> int \<Rightarrow> int \<Rightarrow> string list" where
  "item_texts sc hx [] level indent = []"
| "item_texts sc hx (x # xs) level indent =
     text_of sc hx x level indent # item_texts sc (hex_after sc hx x level indent) xs level indent"

fun member_texts :: "bool \<Rightarrow> bool \<Rightarrow> (string \<times> JSON) list \<Rightarrow> int \<Rightarrow> int \<Rightarrow> (string \<times> string) list" where
  "member_texts sc hx [] level indent = []"
| "member_texts sc hx ((k, v) # ms) level indent =
     (string_text sc k, text_of sc (hx \<or> (\<exists>ch \<in> set k. needs_u sc ch)) v level indent)
       # member_texts sc (hex_after sc (hx \<or> (\<exists>ch \<in> set k. needs_u sc ch)) v level indent)
           ms level indent"

section \<open>Elements and members separated by commas\<close>

text \<open>
  \<open>elements d c xs cL\<close>: from the cursor \<open>c\<close> the text \<open>d\<close> holds the elements \<open>xs\<close>, at least
  one, each read by \<open>parseValue\<close>, with a comma between two of them and white space
  allowed before and after each comma; \<open>cL\<close> is the cursor behind the last element and
  the white space that follows it. \<open>members d c ms cL\<close> is the same for the members of
  an object, each a key read by \<open>parseString\<close>, white space, a colon and a value.
\<close>

fun elements :: "string \<Rightarrow> cursor \<Rightarrow> JSON list \<Rightarrow> cursor \<Rightarrow> bool" where
  "elements d c [] cL = False"
| "elements d c (x # xs) cL =
     (case parseValue d c of
        Inl e \<Rightarrow> False
      | Inr (y, c1) \<Rightarrow>
          y = x \<and>
          (let c2 = skipWhitespace d c1; c3 = skipWhitespace d (advance1 d c2) in
           if xs = [] then cL = c2
           else char_at d (pos c2) = CHR '','' \<and> elements d c3 xs cL))"

fun members :: "string \<Rightarrow> cursor \<Rightarrow> (string \<times> JSON) list \<Rightarrow> cursor \<Rightarrow> bool" where
  "members d c [] cL = False"
| "members d c (m # ms) cL =
     (char_at d (pos c) \<noteq> CHR ''}'' \<and>
      (case parseString d c of
         Inl e \<Rightarrow> False
       | Inr (k, c1) \<Rightarrow>
           k = JString (fst m) \<and>
           (let c2 = skipWhitespace d c1 in
            char_at d (pos c2) = CHR '':'' \<and>
            (case parseValue d (advance1 d c2) of
               Inl e \<Rightarrow> False
             | Inr (y, c3) \<Rightarrow>
                 y = snd m \<and>
                 (let c4 = skipWhitespace d c3; c5 = skipWhitespace d (advance1 d c4) in
                  if ms = [] then cL = c4
                  else char_at d (pos c4) = CHR '','' \<and> members d c5 ms cL)))))"

text \<open>The object that \<open>obj[key] = value\<close> builds from the members, in the order read.\<close>

definition assign_all :: "(string \<times> JSON) list \<Rightarrow> (string \<times> JSON) list \<Rightarrow> (string \<times> JSON) list" where
  "assign_all ms obj = foldl (\<lambda>acc m. map_assign (fst m) (snd m) acc) obj ms"

section \<open>The layouts of the specification\<close>

text \<open>
  The two layouts of an array and the two of an object, written from the words of the
  specification, over the texts of the elements. \<open>one line\<close>: the elements separated by
  a comma and a space (an array) or by a comma (an object, each member as key, colon,
  value). \<open>own lines\<close>: a line break after the opening bracket, then every element on
  a line of its own, indented by \<open>level + indent\<close> spaces and followed by a comma unless
  it is the last, then the closing bracket indented by \<open>level\<close> spaces.
\<close>

fun join :: "string \<Rightarrow> string list \<Rightarrow> string" where
  "join sep [] = []"
| "join sep [t] = t"
| "join sep (t # ts) = t @ sep @ join sep ts"

fun own_lines :: "string \<Rightarrow> string list \<Rightarrow> string" where
  "own_lines ind [] = []"
| "own_lines ind (t # ts) = ind @ t @ (if ts = [] then [] else '','') @ [CHR 0x0A] @ own_lines ind ts"

definition array_one_line :: "string list \<Rightarrow> string" where
  "array_one_line ts = ''['' @ join '', '' ts @ '']''"

definition array_own_lines :: "int \<Rightarrow> int \<Rightarrow> string list \<Rightarrow> string" where
  "array_own_lines level indent ts =
     ''['' @ [CHR 0x0A] @ own_lines (spaces (level + indent)) ts @ spaces level @ '']''"

definition object_one_line :: "(string \<times> string) list \<Rightarrow> string" where
  "object_one_line ms = ''{'' @ join '','' (map (\<lambda>(k, v). k @ '':'' @ v) ms) @ ''}''"

definition object_own_lines :: "int \<Rightarrow> int \<Rightarrow> (string \<times> string) list \<Rightarrow> string" where
  "object_own_lines level indent ms =
     ''{'' @ [CHR 0x0A] @ own_lines (spaces (level + indent)) (map (\<lambda>(k, v). k @ '': '' @ v) ms)
       @ spaces level @ ''}''"

text \<open>
  What stands between the opening bracket (and its line break) and the closing bracket
  in the layouts above.
\<close>

definition array_body :: "bool \<Rightarrow> string \<Rightarrow> string \<Rightarrow> string list \<Rightarrow> string" where
  "array_body pp ind fin ts = (if pp then own_lines ind ts @ fin else join '', '' ts)"

definition member_line :: "bool \<Rightarrow> string \<times> string \<Rightarrow> string" where
  "member_line pp m = fst m @ (if pp then '': '' else '':'') @ snd m"

definition object_body :: "bool \<Rightarrow> string \<Rightarrow> string \<Rightarrow> (string \<times> string) list \<Rightarrow> string" where
  "object_body pp ind fin ms =
     (if pp then own_lines ind (map (member_line pp) ms) @ fin else join '','' (map (member_line pp) ms))"

section \<open>Rules for running the model\<close>

text \<open>
  The loops unfold one round at a time, under the test that decides the round, so that
  the simplifier can run the model on a concrete input.
\<close>

lemma show_nat_small: "n < 10 \<Longrightarrow> show_nat n = [digit_char n]"
  by (simp add: show_nat.simps)

lemma show_nat_large: "\<not> n < 10 \<Longrightarrow> show_nat n = show_nat (n div 10) @ [digit_char (n mod 10)]"
  by (simp add: show_nat.simps[of n])

lemma show_hex_small: "n < 16 \<Longrightarrow> show_hex n = [hex_char n]"
  by (simp add: show_hex.simps)

lemma show_hex_large: "\<not> n < 16 \<Longrightarrow> show_hex n = show_hex (n div 16) @ [hex_char (n mod 16)]"
  by (simp add: show_hex.simps[of n])

lemma ilog_stop: "b < 2 \<or> d = 0 \<or> n < b * d \<Longrightarrow> ilog b n d = 0"
  by (simp add: ilog.simps[of b n d])

lemma ilog_step: "\<not> (b < 2 \<or> d = 0 \<or> n < b * d) \<Longrightarrow> ilog b n d = Suc (ilog b n (b * d))"
  by (simp add: ilog.simps[of b n d])

lemma ilog_neg_stop: "b < 2 \<or> n = 0 \<or> d \<le> n \<Longrightarrow> ilog_neg b n d = 0"
  by (simp add: ilog_neg.simps[of b n d])

lemma ilog_neg_step:
  "\<not> (b < 2 \<or> n = 0 \<or> d \<le> n) \<Longrightarrow> ilog_neg b n d = Suc (ilog_neg b (b * n) d)"
  by (simp add: ilog_neg.simps[of b n d])

lemma replicate_step: "0 < n \<Longrightarrow> replicate n x = x # replicate (n - 1) x"
  by (cases n) simp_all

lemmas number_eval = show_double_def dbl_sign_def dbl_mag_def dbl_expo_def dbl_frac_def
  dbl_pack_def fmt_g6_def floor_log_def scaled_def round_half_even_def fmt_fixed_def fmt_sci_def
  strip_zeros_def pad_left_def digit_char_def hex_char_def show_int_def Let_def
  show_nat_small show_nat_large show_hex_small show_hex_large
  ilog_stop ilog_step ilog_neg_stop ilog_neg_step replicate_step

lemmas parse_eval = parse_def initial_def parseValue.simps parseObject.simps objectLoop.simps
  parseArray.simps arrayLoop.simps skipWhitespace.simps strLoop.simps skipDigits.simps
  parseString_def parseBoolean_def parseNull_def parseNumber_def char_at_def advance1_def
  isspace_def is_digit_def throwError_def unescape_def strncmp_eq_def substr_def stoi_def
  get_string_def dec_val_def Let_def less_eq_char_def

lemmas dump_eval = dump_def put_def dumpString_def dumpChar_def char_int_def spaces_def
  hasComplexChildren_def

section \<open>Keyed access: the claims\<close>

lemma sorted_keys_map_of:
  "sorted_wrt (<) (map fst (m :: (string \<times> JSON) list)) \<Longrightarrow> (k, x) \<in> set m \<Longrightarrow>
     map_of m k = Some x"
  by (simp add: strict_sorted_iff)

lemma map_of_absent: "k \<notin> fst ` set m \<Longrightarrow> map_of m k = None"
  by (simp add: map_of_eq_None_iff)

text \<open>
  Claim C6. Const keyed access \<open>v[k]\<close> is a function of \<open>v\<close> and \<open>k\<close> that returns a result
  and nothing else, so it neither inserts a member nor changes \<open>v\<close>. It fails with the
  TypeMismatch error that names \<open>k\<close> whenever the tag of \<open>v\<close> is not \<open>Object\<close>, it fails
  with KeyNotFound when \<open>v\<close> is an object without a member \<open>k\<close>, and it returns the member
  of \<open>k\<close> otherwise.
\<close>

theorem C6_const_keyed_access:
  "(getType v \<noteq> Object \<longrightarrow> index_key_const v k = Inl (TypeMismatch (not_an_object k))) \<and>
   (\<forall>m. v = JObject m \<and> k \<notin> fst ` set m \<longrightarrow> index_key_const v k = Inl KeyNotFound) \<and>
   (\<forall>m x. v = JObject m \<and> wf_JSON v \<and> (k, x) \<in> set m \<longrightarrow> index_key_const v k = Inr x)"
  by (cases v) (auto simp: index_key_const_def sorted_keys_map_of map_of_absent)

theorem C6_const_keyed_access_witness:
  "index_key_const (JInteger 7) ''a'' = Inl (TypeMismatch (not_an_object ''a'')) \<and>
   index_key_const (JObject [(''a'', JNull)]) ''b'' = Inl KeyNotFound \<and>
   index_key_const (JObject [(''a'', JInteger 7)]) ''a'' = Inr (JInteger 7)"
  using C6_const_keyed_access [of "JInteger 7" "''a''"]
    C6_const_keyed_access [of "JObject [(''a'', JNull)]" "''b''"]
    C6_const_keyed_access [of "JObject [(''a'', JInteger 7)]" "''a''"]
  by simp

section \<open>Type projection: the claims\<close>

text \<open>
  Claim C2, as it stands, fails: \<open>get<int>()\<close> on the \<open>Double\<close> value 1.5 does not return
  the truncated 1, it fails with "Not an integer". The truncating cast is what the
  arithmetic path does, for instance \<open>get<long>()\<close>, which returns 1 here.
\<close>

theorem C2_get_int_on_double_counterexample:
  "get_int (JDouble 0x3FF8000000000000) = Inl (TypeMismatch ''Not an integer'') \<and>
   get_long (JDouble 0x3FF8000000000000) = Inr 1"
  by (simp add: get_int_def get_long_def double_to_long_def number_eval)

lemma dbl_mag_pos: "0 < snd (dbl_mag x)"
  by (simp add: dbl_mag_def Let_def)

lemma sint_long_of_int:
  "- (2 ^ 63) \<le> t \<Longrightarrow> t < 2 ^ 63 \<Longrightarrow> sint (word_of_int t :: 64 word) = t"
  by (simp add: sint_sbintrunc' signed_take_bit_int_eq_self)

lemma double_to_long_truncates:
  assumes fin: "dbl_expo x \<noteq> 2047"
    and rng: "fst (dbl_mag x) < 2 ^ 63 * snd (dbl_mag x)"
  shows "\<exists>l. double_to_long x = Inr l \<and>
           (if dbl_sign x then sint l \<le> 0 else 0 \<le> sint l) \<and>
           nat \<bar>sint l\<bar> * snd (dbl_mag x) \<le> fst (dbl_mag x) \<and>
           fst (dbl_mag x) < (nat \<bar>sint l\<bar> + 1) * snd (dbl_mag x)"
proof -
  define n where "n = fst (dbl_mag x)"
  define d where "d = snd (dbl_mag x)"
  define q where "q = n div d"
  define t where "t = (if dbl_sign x then - int q else int q)"
  have d: "0 < d" unfolding d_def by (rule dbl_mag_pos)
  from rng have "n < 2 ^ 63 * d" by (simp add: n_def d_def)
  then have "q < 2 ^ 63" unfolding q_def using d
    by (simp add: less_mult_imp_div_less mult.commute)
  then have iq: "int q < 2 ^ 63" by (metis of_nat_less_iff of_nat_numeral of_nat_power)
  then have lo: "- (2 ^ 63) \<le> t" and hi: "t < 2 ^ 63" by (auto simp: t_def)
  have st: "sint (word_of_int t :: 64 word) = t" by (rule sint_long_of_int[OF lo hi])
  have abs: "nat \<bar>t\<bar> = q" by (simp add: t_def)
  have dl: "double_to_long x = Inr (word_of_int t)"
    using fin lo hi
    by (simp add: double_to_long_def Let_def n_def[symmetric] d_def[symmetric]
        q_def[symmetric] t_def[symmetric])
  have b1: "q * d \<le> n" unfolding q_def by simp
  have b2: "n < (q + 1) * d" unfolding q_def using d
    by (metis Suc_eq_plus1 dividend_less_div_times mult.commute mult_Suc_right add.commute)
  have sg: "(if dbl_sign x then t \<le> 0 else 0 \<le> t)" by (simp add: t_def)
  show ?thesis
    unfolding dl n_def[symmetric] d_def[symmetric]
    using sg b1 b2 by (simp add: st abs)
qed

text \<open>
  Claim C2, amended. \<open>get<int>()\<close> returns the stored integer when the tag is \<open>Integer\<close>
  and fails with a TypeMismatch error for every other tag, \<open>Double\<close> included. The
  arithmetic path is the one of \<open>get<long>()\<close>: it returns the stored integer with its
  value unchanged; for a finite stored double of magnitude below \<open>2^63\<close> it returns the
  double truncated towards zero, that is the integer \<open>l\<close> of the sign of the double with
  \<open>|l| \<le> |x| < |l| + 1\<close>, the magnitude \<open>|x|\<close> being the fraction \<open>dbl_mag x\<close>; and it fails
  with a TypeMismatch error for every tag other than \<open>Integer\<close> and \<open>Double\<close>.
\<close>

theorem C2_get_int:
  "(\<forall>i. v = JInteger i \<longrightarrow> get_int v = Inr i \<and> (\<exists>l. get_long v = Inr l \<and> sint l = sint i)) \<and>
   (getType v \<noteq> Integer \<longrightarrow> get_int v = Inl (TypeMismatch ''Not an integer'')) \<and>
   (\<forall>x. v = JDouble x \<and> dbl_expo x \<noteq> 2047 \<and> fst (dbl_mag x) < 2 ^ 63 * snd (dbl_mag x) \<longrightarrow>
      (\<exists>l. get_long v = Inr l \<and>
           (if dbl_sign x then sint l \<le> 0 else 0 \<le> sint l) \<and>
           nat \<bar>sint l\<bar> * snd (dbl_mag x) \<le> fst (dbl_mag x) \<and>
           fst (dbl_mag x) < (nat \<bar>sint l\<bar> + 1) * snd (dbl_mag x))) \<and>
   (getType v \<noteq> Integer \<and> getType v \<noteq> Double \<longrightarrow>
      get_long v = Inl (TypeMismatch ''Not a numeric type''))"
proof -
  have p1: "\<forall>i. v = JInteger i \<longrightarrow>
      get_int v = Inr i \<and> (\<exists>l. get_long v = Inr l \<and> sint l = sint i)"
    by (simp add: get_int_def get_long_def sint_up_scast is_up)
  have p2: "getType v \<noteq> Integer \<longrightarrow> get_int v = Inl (TypeMismatch ''Not an integer'')"
    by (cases v) (simp_all add: get_int_def)
  have p3: "\<forall>x. v = JDouble x \<and> dbl_expo x \<noteq> 2047 \<and>
        fst (dbl_mag x) < 2 ^ 63 * snd (dbl_mag x) \<longrightarrow>
      (\<exists>l. get_long v = Inr l \<and>
           (if dbl_sign x then sint l \<le> 0 else 0 \<le> sint l) \<and>
           nat \<bar>sint l\<bar> * snd (dbl_mag x) \<le> fst (dbl_mag x) \<and>
           fst (dbl_mag x) < (nat \<bar>sint l\<bar> + 1) * snd (dbl_mag x))"
  proof (intro allI impI)
    fix x
    assume a: "v = JDouble x \<and> dbl_expo x \<noteq> 2047 \<and>
      fst (dbl_mag x) < 2 ^ 63 * snd (dbl_mag x)"
    then have v: "get_long v = double_to_long x" by (simp add: get_long_def)
    from a have "dbl_expo x \<noteq> 2047" "fst (dbl_mag x) < 2 ^ 63 * snd (dbl_mag x)" by simp_all
    from double_to_long_truncates[OF this]
    show "\<exists>l. get_long v = Inr l \<and>
           (if dbl_sign x then sint l \<le> 0 else 0 \<le> sint l) \<and>
           nat \<bar>sint l\<bar> * snd (dbl_mag x) \<le> fst (dbl_mag x) \<and>
           fst (dbl_mag x) < (nat \<bar>sint l\<bar> + 1) * snd (dbl_mag x)"
      unfolding v .
  qed
  have p4: "getType v \<noteq> Integer \<and> getType v \<noteq> Double \<longrightarrow>
      get_long v = Inl (TypeMismatch ''Not a numeric type'')"
    by (cases v) (simp_all add: get_long_def)
  show ?thesis by (rule conjI[OF p1 conjI[OF p2 conjI[OF p3 p4]]])
qed

theorem C2_get_int_witness:
  "get_int (JInteger 42) = Inr 42 \<and> get_long (JInteger (- 42)) = Inr (- 42) \<and>
   get_int (JDouble 0xC004000000000000) = Inl (TypeMismatch ''Not an integer'') \<and>
   get_long (JDouble 0xC004000000000000) = Inr (- 2) \<and>
   get_int (JString ''42'') = Inl (TypeMismatch ''Not an integer'') \<and>
   get_long (JString ''42'') = Inl (TypeMismatch ''Not a numeric type'')"
  using C2_get_int [of "JInteger 42"] C2_get_int [of "JInteger (- 42)"]
    C2_get_int [of "JDouble 0xC004000000000000"] C2_get_int [of "JString ''42''"]
  by (simp add: get_long_def double_to_long_def number_eval)

lemma map_of_map_assign: "map_of (map_assign k v m) = (map_of m)(k \<mapsto> v)"
  by (induction m) (auto simp: fun_upd_twist)

lemma keys_map_assign: "fst ` set (map_assign k v m) = insert k (fst ` set m)"
  by (induction m) (force split: if_splits)+

lemma entries_map_assign: "set (map_assign k v m) \<subseteq> insert (k, v) (set m)"
  by (induction m) (auto split: if_splits)

lemma sorted_map_assign:
  "sorted_wrt (<) (map fst m) \<Longrightarrow> sorted_wrt (<) (map fst (map_assign k v m))"
proof (induction m)
  case Nil
  show ?case by simp
next
  case (Cons a m)
  obtain k' v' where a: "a = (k', v')" by (cases a)
  from Cons.prems have tl: "sorted_wrt (<) (map fst m)" and hd: "\<forall>x \<in> fst ` set m. k' < x"
    by (auto simp: a)
  show ?case
  proof (cases "k < k'")
    case True
    with Cons.prems hd show ?thesis by (auto simp: a)
  next
    case False
    show ?thesis
    proof (cases "k = k'")
      case True
      with Cons.prems show ?thesis by (simp add: a)
    next
      case ne: False
      with False have "k' < k" by simp
      with hd have "\<forall>x \<in> fst ` set (map_assign k v m). k' < x"
        by (simp add: keys_map_assign)
      with False ne Cons.IH[OF tl] show ?thesis by (auto simp: a)
    qed
  qed
qed

lemma wf_map_assign:
  assumes "wf_JSON (JObject m)" and "wf_JSON v"
  shows "wf_JSON (JObject (map_assign k v m))"
proof -
  from assms(1) have "sorted_wrt (<) (map fst (map_assign k v m))"
    by (simp add: sorted_map_assign)
  moreover have "\<forall>x \<in> set (map_assign k v m). wf_JSON (snd x)"
    using entries_map_assign[of k v m] assms by auto
  ultimately show ?thesis by simp
qed

text \<open>
  Claim C5. Mutable keyed access \<open>v[k]\<close> turns a \<open>Null\<close> value into the object with the
  one member \<open>k\<close>, which is \<open>Null\<close>, and returns that member. On an object it returns the
  member of \<open>k\<close>, which is the old one when \<open>k\<close> was present (the object is unchanged) and
  a new \<open>Null\<close> member when it was absent (the other members are unchanged); the object
  stays well-formed. On any other tag it fails with the TypeMismatch error that names
  \<open>k\<close> and the value is as before. \<open>JSON()["a"]["b"] = 5\<close> results in \<open>{"a":{"b":5}}\<close>.
\<close>

theorem C5_mutable_keyed_access:
  "(v = JNull \<longrightarrow> index_key v k = (Inr JNull, JObject [(k, JNull)])) \<and>
   (\<forall>m. v = JObject m \<and> wf_JSON v \<longrightarrow>
      (\<exists>x m'. index_key v k = (Inr x, JObject m') \<and> wf_JSON (JObject m') \<and>
         map_of m' k = Some x \<and>
         (case map_of m k of
            Some y \<Rightarrow> x = y \<and> m' = m
          | None \<Rightarrow> x = JNull \<and> map_of m' = (map_of m)(k \<mapsto> JNull)))) \<and>
   (getType v \<noteq> Null \<and> getType v \<noteq> Object \<longrightarrow>
      index_key v k = (Inl (TypeMismatch (''Field '' @ [CHR 0x22] @ k @ [CHR 0x22] @ '' is not an object.'')), v)) \<and>
   via_key ''a'' (via_key ''b'' (assign_int 5)) JNull =
     (Inr (), JObject [(''a'', JObject [(''b'', JInteger 5)])])"
proof (intro conjI allI impI)
  assume "v = JNull"
  then show "index_key v k = (Inr JNull, JObject [(k, JNull)])"
    by (simp add: index_key_def map_subscript_def)
next
  fix m
  assume a: "v = JObject m \<and> wf_JSON v"
  show "\<exists>x m'. index_key v k = (Inr x, JObject m') \<and> wf_JSON (JObject m') \<and>
         map_of m' k = Some x \<and>
         (case map_of m k of
            Some y \<Rightarrow> x = y \<and> m' = m
          | None \<Rightarrow> x = JNull \<and> map_of m' = (map_of m)(k \<mapsto> JNull))"
  proof -
    from a have vm: "v = JObject m" by (rule conjunct1)
    from a have "wf_JSON v" by (rule conjunct2)
    then have wfm: "wf_JSON (JObject m)" unfolding vm .
    show ?thesis
    proof (cases "map_of m k")
      case None
      from wfm have "wf_JSON (JObject (map_assign k JNull m))"
        by (rule wf_map_assign) simp
      with None show ?thesis
        by (simp add: vm index_key_def map_subscript_def map_of_map_assign)
    next
      case (Some y)
      with wfm show ?thesis
        by (simp add: vm index_key_def map_subscript_def)
    qed
  qed
next
  assume "getType v \<noteq> Null \<and> getType v \<noteq> Object"
  then show "index_key v k =
      (Inl (TypeMismatch (''Field '' @ [CHR 0x22] @ k @ [CHR 0x22] @ '' is not an object.'')), v)"
    by (cases v) (simp_all add: index_key_def not_an_object_def)
next
  show "via_key ''a'' (via_key ''b'' (assign_int 5)) JNull =
     (Inr (), JObject [(''a'', JObject [(''b'', JInteger 5)])])"
    by (simp add: via_key_def index_key_def map_subscript_def assign_int_def)
qed

theorem C5_mutable_keyed_access_witness:
  "index_key JNull ''a'' = (Inr JNull, JObject [(''a'', JNull)]) \<and>
   index_key (JObject [(''a'', JInteger 1)]) ''b'' =
     (Inr JNull, JObject [(''a'', JInteger 1), (''b'', JNull)]) \<and>
   index_key (JObject [(''a'', JInteger 1)]) ''a'' = (Inr (JInteger 1), JObject [(''a'', JInteger 1)]) \<and>
   index_key (JInteger 3) ''a'' =
     (Inl (TypeMismatch (''Field '' @ [CHR 0x22] @ ''a'' @ [CHR 0x22] @ '' is not an object.'')), JInteger 3)"
  using C5_mutable_keyed_access [of JNull "''a''"]
    C5_mutable_keyed_access [of "JObject [(''a'', JInteger 1)]" "''b''"]
    C5_mutable_keyed_access [of "JObject [(''a'', JInteger 1)]" "''a''"]
    C5_mutable_keyed_access [of "JInteger 3" "''a''"]
  by (simp add: index_key_def map_subscript_def less_char_def)

section \<open>Parser: the claims\<close>

text \<open>
  Claim C8, as it stands, fails: the text \<open>truex\<close> is not rejected. \<open>parseBoolean\<close> compares
  the next four bytes with \<open>true\<close> and returns; the \<open>x\<close> is never looked at.
\<close>

theorem C8_truex_counterexample:
  "parse ''truex'' = Inr (JBoolean True)"
  by (simp add: parse_eval)

text \<open>
  Claim C8, amended. When the lookahead after white space is \<open>t\<close> or \<open>f\<close>, the value is
  \<open>true\<close> when the next four bytes are \<open>true\<close>, \<open>false\<close> when the next five bytes are
  \<open>false\<close>, and the cursor moves past these bytes, whatever follows them; anything else
  is the SyntaxError "Unexpected boolean value" at the line and column of the
  lookahead. The same holds for \<open>n\<close>, the four bytes \<open>null\<close> and the \<open>Null\<close> value.
\<close>

theorem C8_literals:
  assumes "c = skipWhitespace d c0"
  shows "(char_at d (pos c) = CHR ''t'' \<or> char_at d (pos c) = CHR ''f'' \<longrightarrow>
           parseValue d c0 =
             (if take 4 (drop (pos c) d) = ''true'' then Inr (JBoolean True, advance d 4 c)
              else if take 5 (drop (pos c) d) = ''false'' then Inr (JBoolean False, advance d 5 c)
              else Inl (SyntaxError ''Unexpected boolean value in JSON'' (line c) (col c)))) \<and>
         (char_at d (pos c) = CHR ''n'' \<longrightarrow>
           parseValue d c0 =
             (if take 4 (drop (pos c) d) = ''null'' then Inr (JNull, advance d 4 c)
              else Inl (SyntaxError ''Unexpected null value in JSON'' (line c) (col c))))"
proof -
  have lit: "strncmp_eq d (pos c) ''true'' = (take 4 (drop (pos c) d) = ''true'')"
    "strncmp_eq d (pos c) ''false'' = (take 5 (drop (pos c) d) = ''false'')"
    "strncmp_eq d (pos c) ''null'' = (take 4 (drop (pos c) d) = ''null'')"
    by (simp_all add: strncmp_eq_def eval_nat_numeral)
  have b: "parseValue d c0 = parseBoolean d c"
    if "char_at d (pos c) = CHR ''t'' \<or> char_at d (pos c) = CHR ''f''"
    using that by (auto simp: parseValue.simps[of d c0] assms[symmetric] Let_def)
  have n: "parseValue d c0 = parseNull d c" if "char_at d (pos c) = CHR ''n''"
    using that by (simp add: parseValue.simps[of d c0] assms[symmetric] Let_def)
  show ?thesis
    by (intro conjI impI) (simp_all add: b n parseBoolean_def parseNull_def lit throwError_def)
qed

theorem C8_literals_witness:
  "parseValue '' truex'' initial = Inr (JBoolean True, \<lparr>pos = 5, line = 1, col = 6\<rparr>) \<and>
   parseValue ''[tru]'' \<lparr>pos = 1, line = 1, col = 2\<rparr> =
     Inl (SyntaxError ''Unexpected boolean value in JSON'' 1 2) \<and>
   parseValue ''nulL'' initial = Inl (SyntaxError ''Unexpected null value in JSON'' 1 1)"
  using C8_literals [of "\<lparr>pos = 1, line = 1, col = 2\<rparr>" "'' truex''" initial]
    C8_literals [of "\<lparr>pos = 1, line = 1, col = 2\<rparr>" "''[tru]''" "\<lparr>pos = 1, line = 1, col = 2\<rparr>"]
    C8_literals [of initial "''nulL''" initial]
  by (simp add: parse_eval numeral_eq_Suc)

text \<open>
  Claim C7, as it stands, fails: a comma before the closing bracket is accepted only behind
  an element or a member. \<open>[,]\<close> and \<open>[1,,]\<close> are rejected at the comma, and on \<open>{,}\<close> the
  comma is taken for the opening quote of a key, which then has no end.
\<close>

theorem C7_comma_without_element_counterexample:
  "parse ''[,]'' = Inl (SyntaxError ''Unexpected character in JSON'' 1 2) \<and>
   parse ''[1,,]'' = Inl (SyntaxError ''Unexpected character in JSON'' 1 4) \<and>
   parse ''{,}'' = Inl ReadPastEnd"
  by (simp add: parse_eval)

lemma parseValue_at_close:
  assumes "char_at d (pos c) = CHR '']''"
  shows "parseValue d c = Inl (throwError ''Unexpected character in JSON'' c)"
proof -
  from assms have "skipWhitespace d c = c"
    by (simp add: skipWhitespace.simps[of d c] isspace_def)
  with assms show ?thesis
    by (simp add: parseValue.simps[of d c] Let_def less_eq_char_def)
qed

lemma arrayLoop_elements:
  assumes "elements d c xs cL"
  shows "(char_at d (pos cL) = CHR '']'' \<longrightarrow>
           arrayLoop d c arr = Inr (JArray (arr @ xs), advance1 d cL)) \<and>
         (char_at d (pos cL) = CHR '','' \<and>
          char_at d (pos (skipWhitespace d (advance1 d cL))) = CHR '']'' \<longrightarrow>
           arrayLoop d c arr =
             Inr (JArray (arr @ xs), advance1 d (skipWhitespace d (advance1 d cL))))"
  using assms
proof (induction xs arbitrary: c arr)
  case Nil
  then show ?case by simp
next
  case (Cons x xs)
  from Cons.prems obtain c1 where pv: "parseValue d c = Inr (x, c1)"
    by (auto split: sum.splits)
  define c2 where "c2 = skipWhitespace d c1"
  define c3 where "c3 = (if char_at d (pos c2) = CHR '','' then skipWhitespace d (advance1 d c2) else c2)"
  have nc: "char_at d (pos c) \<noteq> CHR '']''"
  proof
    assume "char_at d (pos c) = CHR '']''"
    from parseValue_at_close[OF this] pv show False by simp
  qed
  from nc pv have step: "arrayLoop d c arr = arrayLoop d c3 (arr @ [x])"
    by (simp add: arrayLoop.simps[of d c] Let_def c2_def c3_def)
  show ?case
  proof (cases "xs = []")
    case True
    with Cons.prems pv have cL: "cL = c2" by (simp add: c2_def Let_def)
    show ?thesis
    proof (intro conjI impI)
      assume "char_at d (pos cL) = CHR '']''"
      then show "arrayLoop d c arr = Inr (JArray (arr @ x # xs), advance1 d cL)"
        unfolding step using True cL
        by (simp add: c3_def arrayLoop.simps[of d c2])
    next
      assume a: "char_at d (pos cL) = CHR '','' \<and>
        char_at d (pos (skipWhitespace d (advance1 d cL))) = CHR '']''"
      then have "c3 = skipWhitespace d (advance1 d cL)" by (simp add: c3_def cL)
      with a show "arrayLoop d c arr =
          Inr (JArray (arr @ x # xs), advance1 d (skipWhitespace d (advance1 d cL)))"
        unfolding step using True
        by (simp add: arrayLoop.simps[of d "skipWhitespace d (advance1 d cL)"])
    qed
  next
    case False
    with Cons.prems pv have comma: "char_at d (pos c2) = CHR '',''"
      and rest: "elements d (skipWhitespace d (advance1 d c2)) xs cL"
      by (simp_all add: c2_def Let_def)
    from comma have "c3 = skipWhitespace d (advance1 d c2)" by (simp add: c3_def)
    with Cons.IH[OF rest, of "arr @ [x]"] show ?thesis
      unfolding step by simp
  qed
qed

lemma objectLoop_members:
  assumes "members d c ms cL"
  shows "(char_at d (pos cL) = CHR ''}'' \<longrightarrow>
           objectLoop d c obj = Inr (JObject (assign_all ms obj), advance1 d cL)) \<and>
         (char_at d (pos cL) = CHR '','' \<and>
          char_at d (pos (skipWhitespace d (advance1 d cL))) = CHR ''}'' \<longrightarrow>
           objectLoop d c obj =
             Inr (JObject (assign_all ms obj), advance1 d (skipWhitespace d (advance1 d cL))))"
  using assms
proof (induction ms arbitrary: c obj)
  case Nil
  then show ?case by simp
next
  case (Cons m ms)
  from Cons.prems have nc: "char_at d (pos c) \<noteq> CHR ''}''" by simp
  from Cons.prems obtain c1 where ps: "parseString d c = Inr (JString (fst m), c1)"
    by (auto split: sum.splits)
  define c2 where "c2 = skipWhitespace d c1"
  from Cons.prems ps have colon: "char_at d (pos c2) = CHR '':''"
    by (simp add: c2_def Let_def)
  from Cons.prems ps colon obtain c3 where pv: "parseValue d (advance1 d c2) = Inr (snd m, c3)"
    by (auto simp: c2_def Let_def split: sum.splits)
  define c4 where "c4 = skipWhitespace d c3"
  define c5 where "c5 = (if char_at d (pos c4) = CHR '','' then skipWhitespace d (advance1 d c4) else c4)"
  from nc ps colon pv have step:
    "objectLoop d c obj = objectLoop d c5 (map_assign (fst m) (snd m) obj)"
    by (simp add: objectLoop.simps[of d c] Let_def c2_def[symmetric] c4_def c5_def get_string_def)
  have all: "assign_all (m # ms) obj = assign_all ms (map_assign (fst m) (snd m) obj)"
    by (simp add: assign_all_def)
  show ?case
  proof (cases "ms = []")
    case True
    with Cons.prems ps colon pv have cL: "cL = c4"
      by (simp add: c2_def[symmetric] c4_def Let_def)
    show ?thesis
    proof (intro conjI impI)
      assume "char_at d (pos cL) = CHR ''}''"
      then show "objectLoop d c obj = Inr (JObject (assign_all (m # ms) obj), advance1 d cL)"
        unfolding step using True cL
        by (simp add: c5_def objectLoop.simps[of d c4] assign_all_def)
    next
      assume a: "char_at d (pos cL) = CHR '','' \<and>
        char_at d (pos (skipWhitespace d (advance1 d cL))) = CHR ''}''"
      then have "c5 = skipWhitespace d (advance1 d cL)" by (simp add: c5_def cL)
      with a show "objectLoop d c obj =
          Inr (JObject (assign_all (m # ms) obj), advance1 d (skipWhitespace d (advance1 d cL)))"
        unfolding step using True
        by (simp add: objectLoop.simps[of d "skipWhitespace d (advance1 d cL)"] assign_all_def)
    qed
  next
    case False
    with Cons.prems ps colon pv have comma: "char_at d (pos c4) = CHR '',''"
      and rest: "members d (skipWhitespace d (advance1 d c4)) ms cL"
      by (simp_all add: c2_def[symmetric] c4_def Let_def)
    from comma have "c5 = skipWhitespace d (advance1 d c4)" by (simp add: c5_def)
    with Cons.IH[OF rest, of "map_assign (fst m) (snd m) obj"] show ?thesis
      unfolding step all by simp
  qed
qed

text \<open>
  Claim C7, amended. Where the lookahead after white space is \<open>[\<close> and the text goes
  on with one or more elements separated by commas, then a comma, optional white space
  and \<open>]\<close>, the value is the array of these elements, and the cursor is behind the \<open>]\<close>:
  the comma behind the last element is accepted. The same holds for \<open>{\<close>, one or more
  members, a comma, optional white space and \<open>}\<close>: the value is the object that
  assigning the members in turn builds. When this is the whole text, \<open>parse\<close> returns
  that value. In particular \<open>[1,2,]\<close> is the array of 1 and 2.
\<close>

theorem C7_trailing_comma:
  assumes "c = skipWhitespace d c0"
    and "cE = skipWhitespace d (advance1 d cL)"
    and "char_at d (pos cL) = CHR '',''"
  shows "(char_at d (pos c) = CHR ''['' \<and>
          elements d (skipWhitespace d (advance1 d c)) xs cL \<and>
          char_at d (pos cE) = CHR '']'' \<longrightarrow>
            parseValue d c0 = Inr (JArray xs, advance1 d cE) \<and>
            (c0 = skipWhitespace d initial \<longrightarrow> parse d = Inr (JArray xs))) \<and>
         (char_at d (pos c) = CHR ''{'' \<and>
          members d (skipWhitespace d (advance1 d c)) ms cL \<and>
          char_at d (pos cE) = CHR ''}'' \<longrightarrow>
            parseValue d c0 = Inr (JObject (assign_all ms []), advance1 d cE) \<and>
            (c0 = skipWhitespace d initial \<longrightarrow> parse d = Inr (JObject (assign_all ms [])))) \<and>
         parse ''[1,2,]'' = Inr (JArray [JInteger 1, JInteger 2])"
proof -
  have arr: "parseValue d c0 = Inr (JArray xs, advance1 d cE)"
    if "char_at d (pos c) = CHR ''[''" "elements d (skipWhitespace d (advance1 d c)) xs cL"
      "char_at d (pos cE) = CHR '']''"
  proof -
    from that(1) have "parseValue d c0 = arrayLoop d (skipWhitespace d (advance1 d c)) []"
      by (simp add: parseValue.simps[of d c0] assms(1)[symmetric] Let_def parseArray.simps)
    with arrayLoop_elements[OF that(2), of "[]"] assms(2,3) that(3) show ?thesis by simp
  qed
  have obj: "parseValue d c0 = Inr (JObject (assign_all ms []), advance1 d cE)"
    if "char_at d (pos c) = CHR ''{''" "members d (skipWhitespace d (advance1 d c)) ms cL"
      "char_at d (pos cE) = CHR ''}''"
  proof -
    from that(1) have "parseValue d c0 = objectLoop d (skipWhitespace d (advance1 d c)) []"
      by (simp add: parseValue.simps[of d c0] assms(1)[symmetric] Let_def parseObject.simps)
    with objectLoop_members[OF that(2), of "[]"] assms(2,3) that(3) show ?thesis by simp
  qed
  have one: "parse ''[1,2,]'' = Inr (JArray [JInteger 1, JInteger 2])"
    by (simp add: parse_eval)
  show ?thesis
  proof (intro conjI impI)
    assume a: "char_at d (pos c) = CHR ''['' \<and>
      elements d (skipWhitespace d (advance1 d c)) xs cL \<and> char_at d (pos cE) = CHR '']''"
    then show "parseValue d c0 = Inr (JArray xs, advance1 d cE)" by (intro arr) simp_all
    assume "c0 = skipWhitespace d initial"
    with arr a show "parse d = Inr (JArray xs)" by (simp add: parse_def)
  next
    assume a: "char_at d (pos c) = CHR ''{'' \<and>
      members d (skipWhitespace d (advance1 d c)) ms cL \<and> char_at d (pos cE) = CHR ''}''"
    then show "parseValue d c0 = Inr (JObject (assign_all ms []), advance1 d cE)"
      by (intro obj) simp_all
    assume "c0 = skipWhitespace d initial"
    with obj a show "parse d = Inr (JObject (assign_all ms []))" by (simp add: parse_def)
  next
    show "parse ''[1,2,]'' = Inr (JArray [JInteger 1, JInteger 2])" by (rule one)
  qed
qed

theorem C7_trailing_comma_witness:
  "parseValue ''[1,2 , ]'' initial =
     Inr (JArray [JInteger 1, JInteger 2], \<lparr>pos = 8, line = 1, col = 9\<rparr>) \<and>
   parse ''[1,2 , ]'' = Inr (JArray [JInteger 1, JInteger 2]) \<and>
   parse (''{'' @ [CHR 0x22] @ ''a'' @ [CHR 0x22] @ '':1,'' @ [CHR 0x22] @ ''b'' @ [CHR 0x22] @
       '':[2,],}'') =
     Inr (JObject [(''a'', JInteger 1), (''b'', JArray [JInteger 2])])"
  using C7_trailing_comma [of initial "''[1,2 , ]''" initial "\<lparr>pos = 7, line = 1, col = 8\<rparr>"
      "\<lparr>pos = 5, line = 1, col = 6\<rparr>" "[JInteger 1, JInteger 2]" "[]"]
    C7_trailing_comma [of initial
      "''{'' @ [CHR 0x22] @ ''a'' @ [CHR 0x22] @ '':1,'' @ [CHR 0x22] @ ''b'' @ [CHR 0x22] @ '':[2,],}''"
      initial "\<lparr>pos = 16, line = 1, col = 17\<rparr>" "\<lparr>pos = 15, line = 1, col = 16\<rparr>" "[]"
      "[(''a'', JInteger 1), (''b'', JArray [JInteger 2])]"]
  by code_simp

text \<open>
  Claim C3: the two inputs it names do not fail with a SyntaxError. On the lone \<open>-\<close>,
  \<open>parseNumber\<close> hands the token to \<open>std::stoi\<close>, whose \<open>std::invalid_argument\<close> carries no
  line and no column. On the unterminated string \<open>"abc\<close> the loop of \<open>parseString\<close> steps
  over the terminating \<open>'\0'\<close> and reads past the end of the text.
\<close>

theorem C3_failures_without_position:
  "parse ''-'' = Inl InvalidArgument \<and>
   parse [CHR 0x22, CHR ''a'', CHR ''b'', CHR ''c''] = Inl ReadPastEnd"
  by (simp add: parse_eval)

section \<open>Serializer: the claims\<close>

text \<open>
  Claim C4: where plain \<open>char\<close> is signed, the bytes from \<open>0x80\<close> on are negative, pass the
  test \<open>ch < 32\<close> and are written as a backslash, \<open>u\<close> and the eight hexadecimal digits
  of the negative \<open>int\<close>: the two bytes \<open>0xC3 0xA9\<close> of a UTF-8 letter come out as
  \<open>ffffffc3\<close> and \<open>ffffffa9\<close> behind the escape. Where \<open>char\<close> is unsigned they pass through.
\<close>

theorem C4_high_bytes_signed_char:
  "dump True (JString [CHR 0xC3, CHR 0xA9]) 4 =
     [CHR 0x22, CHR 0x5C] @ ''uffffffc3'' @ [CHR 0x5C] @ ''uffffffa9'' @ [CHR 0x22] \<and>
   dump False (JString [CHR 0xC3, CHR 0xA9]) 4 = [CHR 0x22, CHR 0xC3, CHR 0xA9, CHR 0x22]"
  by (simp add: dump_eval number_eval)

section \<open>Reading back what the serializer writes\<close>

text \<open>
  What the parser does at a cursor depends on the text from the cursor on,
  \<open>drop (pos c) d\<close>; the lemmas below describe each production by what it consumes of
  that text.
\<close>

lemma char_at_drop: "char_at d p = (case drop p d of [] \<Rightarrow> CHR 0x00 | x # xs \<Rightarrow> x)"
proof (cases "p < length d")
  case True
  then show ?thesis by (simp add: char_at_def Cons_nth_drop_Suc[symmetric])
next
  case False
  then show ?thesis by (simp add: char_at_def)
qed

lemma char_at_Cons: "drop (pos c) d = x # xs \<Longrightarrow> char_at d (pos c) = x"
  by (simp add: char_at_drop)

lemma char_at_Nil: "drop (pos c) d = [] \<Longrightarrow> char_at d (pos c) = CHR 0x00"
  by (simp add: char_at_drop)

lemma drop_advance1: "drop (pos (advance1 d c)) d = tl (drop (pos c) d)"
  by (simp add: drop_Suc tl_drop)

lemma drop_advance: "drop (pos (advance d n c)) d = drop n (drop (pos c) d)"
  by (simp add: add.commute)

lemma drop_Suc_Cons: "drop p d = x # xs \<Longrightarrow> drop (Suc p) d = xs"
  by (metis drop_Suc list.sel(3) tl_drop)

lemma isspace_nonzero: "isspace ch \<Longrightarrow> ch \<noteq> CHR 0x00"
  by (auto simp: isspace_def)

lemma skipWhitespace_drop:
  "drop (pos (skipWhitespace d c)) d = dropWhile isspace (drop (pos c) d)"
proof (induction d c rule: skipWhitespace.induct)
  case (1 d c)
  show ?case
  proof (cases "drop (pos c) d")
    case Nil
    then show ?thesis
      by (simp add: skipWhitespace.simps[of d c] char_at_Nil)
  next
    case (Cons x xs)
    then have x: "char_at d (pos c) = x" by (rule char_at_Cons)
    show ?thesis
    proof (cases "isspace x")
      case True
      with x have "char_at d (pos c) \<noteq> CHR 0x00 \<and> isspace (char_at d (pos c))"
        by (simp add: isspace_nonzero)
      from "1.IH"[OF this] this Cons True show ?thesis
        by (simp add: skipWhitespace.simps[of d c] drop_Suc_Cons)
    next
      case False
      with x Cons show ?thesis by (simp add: skipWhitespace.simps[of d c])
    qed
  qed
qed

lemma skipDigits_drop:
  "drop (pos (skipDigits d c)) d = dropWhile is_digit (drop (pos c) d) \<and>
   pos (skipDigits d c) = pos c + length (takeWhile is_digit (drop (pos c) d))"
proof (induction d c rule: skipDigits.induct)
  case (1 d c)
  show ?case
  proof (cases "drop (pos c) d")
    case Nil
    then have "\<not> is_digit (char_at d (pos c))"
      by (auto simp: char_at_Nil dest: is_digit_nonzero)
    with Nil show ?thesis
      by (simp add: skipDigits.simps[of d c])
  next
    case (Cons x xs)
    then have x: "char_at d (pos c) = x" by (rule char_at_Cons)
    show ?thesis
    proof (cases "is_digit x")
      case True
      with x have dg: "is_digit (char_at d (pos c))" by simp
      then have unf: "skipDigits d c = skipDigits d (advance1 d c)"
        by (simp add: skipDigits.simps[of d c])
      from Cons have nxt: "drop (pos (advance1 d c)) d = xs"
        by (simp add: drop_Suc_Cons)
      from "1.IH"[OF dg] have
        a: "drop (pos (skipDigits d (advance1 d c))) d = dropWhile is_digit (drop (pos (advance1 d c)) d)"
        and b: "pos (skipDigits d (advance1 d c)) =
          pos (advance1 d c) + length (takeWhile is_digit (drop (pos (advance1 d c)) d))"
        by blast+
      show ?thesis
      proof (intro conjI)
        show "drop (pos (skipDigits d c)) d = dropWhile is_digit (drop (pos c) d)"
          unfolding unf a nxt using Cons True by simp
        show "pos (skipDigits d c) = pos c + length (takeWhile is_digit (drop (pos c) d))"
          unfolding unf b nxt using Cons True by simp
      qed
    next
      case False
      with x Cons show ?thesis by (simp add: skipDigits.simps[of d c])
    qed
  qed
qed

lemma put_put [simp]: "put b (put a oss) = put (a @ b) oss"
  by (simp add: put_def)

lemma put_Nil [simp]: "put [] oss = oss"
  by (simp add: put_def)

lemma hex_put [simp]: "hex (put s oss) = hex oss"
  by (simp add: put_def)

lemma out_put [simp]: "out (put s oss) = out oss @ s"
  by (simp add: put_def)

lemma dumpChar_plain: "\<not> needs_u sc ch \<Longrightarrow> dumpChar sc ch oss = put (esc ch) oss"
  by (auto simp: needs_u_def dumpChar_def esc_def)

lemma dumpChars_plain:
  "\<forall>ch \<in> set s. \<not> needs_u sc ch \<Longrightarrow>
     foldl (\<lambda>os ch. dumpChar sc ch os) oss s = put (concat (map esc s)) oss"
  by (induction s arbitrary: oss) (simp_all add: dumpChar_plain)

lemma dumpString_plain:
  "\<forall>ch \<in> set s. \<not> needs_u sc ch \<Longrightarrow>
     dumpString sc s oss = put (CHR 0x22 # concat (map esc s) @ [CHR 0x22]) oss"
  by (simp add: dumpString_def dumpChars_plain)

lemma esc_cases:
  "(esc ch = [ch] \<and> ch \<noteq> CHR 0x22 \<and> ch \<noteq> CHR 0x5C) \<or>
   (\<exists>e. esc ch = [CHR 0x5C, e] \<and> unescape e = Some ch)"
  by (simp add: esc_def unescape_def)

lemma strLoop_esc:
  "drop (pos c) d = concat (map esc s) @ CHR 0x22 # rest \<Longrightarrow>
     \<exists>c'. strLoop d c acc = Inr (JString (acc @ s), c') \<and> drop (pos c') d = rest"
proof (induction s arbitrary: c acc)
  case Nil
  then have "char_at d (pos c) = CHR 0x22" and "pos c < length d"
    by (auto simp: char_at_Cons intro: ccontr)
  with Nil show ?case
    by (simp add: strLoop.simps[of d c] drop_Suc_Cons)
next
  case (Cons ch s)
  from Cons.prems have ne: "drop (pos c) d \<noteq> []"
    using esc_cases[of ch] by auto
  then have le: "\<not> length d < pos c" by auto
  from esc_cases[of ch] show ?case
  proof (elim disjE conjE exE)
    assume e: "esc ch = [ch]" and q: "ch \<noteq> CHR 0x22" and b: "ch \<noteq> CHR 0x5C"
    from Cons.prems e have dr: "drop (pos c) d = ch # concat (map esc s) @ CHR 0x22 # rest"
      by simp
    then have x: "char_at d (pos c) = ch" by (rule char_at_Cons)
    from dr have "drop (pos (advance1 d c)) d = concat (map esc s) @ CHR 0x22 # rest"
      by (simp add: drop_Suc_Cons)
    from Cons.IH[OF this, of "acc @ [ch]"] x q b le show ?thesis
      by (simp add: strLoop.simps[of d c])
  next
    fix e
    assume e: "esc ch = [CHR 0x5C, e]" and u: "unescape e = Some ch"
    from Cons.prems e have dr:
      "drop (pos c) d = CHR 0x5C # e # concat (map esc s) @ CHR 0x22 # rest"
      by simp
    then have x: "char_at d (pos c) = CHR 0x5C" by (rule char_at_Cons)
    from dr have dr1: "drop (pos (advance1 d c)) d = e # concat (map esc s) @ CHR 0x22 # rest"
      by (simp add: drop_Suc_Cons)
    then have x1: "char_at d (pos (advance1 d c)) = e" by (rule char_at_Cons)
    from dr1 have "drop (pos (advance1 d (advance1 d c))) d = concat (map esc s) @ CHR 0x22 # rest"
      by (simp add: drop_Suc_Cons)
    from Cons.IH[OF this, of "acc @ [ch]"] x x1 u le show ?thesis
      by (simp add: strLoop.simps[of d c] Let_def)
  qed
qed

lemma digit_char_props:
  assumes "k < 10"
  shows "is_digit (digit_char k)" and "of_char (digit_char k) = 48 + k"
proof -
  from assms have "k \<in> {0, 1, 2, 3, 4, 5, 6, 7, 8, 9}" by auto
  then show "is_digit (digit_char k)" and "of_char (digit_char k) = 48 + k"
    by (auto simp: digit_char_def is_digit_def less_eq_char_def)
qed

lemma show_nat_digits: "ch \<in> set (show_nat n) \<Longrightarrow> is_digit ch"
proof (induction n rule: show_nat.induct)
  case (1 n)
  then show ?case
    by (cases "n < 10") (auto simp: show_nat_small show_nat_large digit_char_props)
qed

lemma show_nat_nonempty: "show_nat n \<noteq> []"
  by (cases "n < 10") (simp_all add: show_nat_small show_nat_large)

lemma dec_val_snoc: "dec_val (ds @ [ch]) = 10 * dec_val ds + (of_char ch - 48)"
  by (simp add: dec_val_def)

lemma dec_val_show_nat: "dec_val (show_nat n) = n"
proof (induction n rule: show_nat.induct)
  case (1 n)
  show ?case
  proof (cases "n < 10")
    case True
    then show ?thesis by (simp add: show_nat_small dec_val_def digit_char_props)
  next
    case False
    then have "n mod 10 < 10" by simp
    with False "1.IH" show ?thesis
      by (simp add: show_nat_large dec_val_snoc digit_char_props)
  qed
qed

lemma takeWhile_all: "\<forall>x \<in> set xs. P x \<Longrightarrow> takeWhile P xs = xs"
  by (simp add: takeWhile_eq_all_conv)

lemma is_digit_not_space: "is_digit ch \<Longrightarrow> \<not> isspace ch"
  by (auto simp: is_digit_def isspace_def less_eq_char_def)

lemma stoi_show_int: "stoi (show_int False i) = Inr i"
proof -
  define n where "n = (if sint i < 0 then nat (- sint i) else nat (sint i))"
  define S where "S = show_nat n"
  have dg: "\<forall>ch \<in> set S. is_digit ch" by (simp add: S_def show_nat_digits)
  have ne: "S \<noteq> []" by (simp add: S_def show_nat_nonempty)
  with dg have x: "is_digit (hd S)" by simp
  then have xs: "\<not> isspace (hd S)" "hd S \<noteq> CHR ''-''" "hd S \<noteq> CHR ''+''"
    by (auto simp: is_digit_not_space is_digit_def less_eq_char_def)
  have tw: "takeWhile is_digit S = S" using dg by (rule takeWhile_all)
  have dw: "dropWhile isspace S = S" using ne xs(1) by (cases S) simp_all
  have dv: "dec_val S = n" by (simp add: S_def dec_val_show_nat)
  have rng: "- 2147483648 \<le> sint i" "sint i \<le> 2147483647"
    using sint_ge[of i] sint_lt[of i] by simp_all
  show ?thesis
  proof (cases "sint i < 0")
    case True
    then have si: "show_int False i = CHR ''-'' # S"
      by (simp add: show_int_def n_def S_def)
    from True have "- int n = sint i" by (simp add: n_def)
    with rng ne show ?thesis
      unfolding si stoi_def by (simp add: Let_def isspace_def tw dv)
  next
    case False
    then have si: "show_int False i = S"
      by (simp add: show_int_def n_def S_def)
    from False have "int n = sint i" by (simp add: n_def)
    with rng ne xs show ?thesis
      unfolding si stoi_def by (simp add: Let_def tw dw dv)
  qed
qed

lemma dropWhile_digits:
  assumes "\<forall>ch \<in> set S. is_digit ch" and "rest = [] \<or> \<not> is_digit (hd rest)"
  shows "dropWhile is_digit (S @ rest) = rest" and "takeWhile is_digit (S @ rest) = S"
proof -
  from assms(2) have r: "dropWhile is_digit rest = rest" "takeWhile is_digit rest = []"
    by (cases rest; simp)+
  from assms(1) show "dropWhile is_digit (S @ rest) = rest"
    by (simp add: dropWhile_append r)
  from assms(1) show "takeWhile is_digit (S @ rest) = S"
    by (simp add: takeWhile_append r)
qed

lemma drop_prefix: "drop p d = xs @ rest \<Longrightarrow> drop (p + length xs) d = rest"
  by (metis add.commute append_eq_conv_conj drop_drop)

lemma parseNumber_int:
  assumes dr: "drop (pos c) d = show_int False i @ rest" and ends: "number_ends rest"
  shows "\<exists>c'. parseNumber d c = Inr (JInteger i, c') \<and> drop (pos c') d = rest"
proof -
  define n where "n = (if sint i < 0 then nat (- sint i) else nat (sint i))"
  define S where "S = show_nat n"
  define sg where "sg = (if sint i < 0 then ''-'' else [])"
  have T: "show_int False i = sg @ S" by (simp add: show_int_def n_def S_def sg_def)
  have dg: "\<forall>ch \<in> set S. is_digit ch" by (simp add: S_def show_nat_digits)
  have ne: "S \<noteq> []" by (simp add: S_def show_nat_nonempty)
  with dg have "is_digit (hd S)" by simp
  then have hdS: "hd S \<noteq> CHR ''-''" by (auto simp: is_digit_def less_eq_char_def)
  define c1 where "c1 = (if char_at d (pos c) = CHR ''-'' then advance1 d c else c)"
  define c2 where "c2 = skipDigits d c1"
  have "drop (pos c1) d = S @ rest \<and> pos c1 = pos c + length sg"
  proof (cases "sint i < 0")
    case True
    with dr T have "drop (pos c) d = CHR ''-'' # S @ rest" by (simp add: sg_def)
    then show ?thesis using True
      by (simp add: c1_def char_at_Cons drop_Suc_Cons sg_def)
  next
    case False
    with dr T ne have "drop (pos c) d = hd S # tl S @ rest" by (simp add: sg_def)
    then have "char_at d (pos c) = hd S" by (rule char_at_Cons)
    with hdS False dr T show ?thesis by (simp add: c1_def sg_def)
  qed
  then have c1: "drop (pos c1) d = S @ rest" "pos c1 = pos c + length sg"
    by blast+
  from ends have e1: "rest = [] \<or> \<not> is_digit (hd rest)" by (auto simp: number_ends_def)
  have c2: "drop (pos c2) d = rest" "pos c2 = pos c + length (sg @ S)"
  proof -
    from skipDigits_drop[of d c1] have
      a: "drop (pos c2) d = dropWhile is_digit (drop (pos c1) d)" and
      b: "pos c2 = pos c1 + length (takeWhile is_digit (drop (pos c1) d))"
      unfolding c2_def by blast+
    show "drop (pos c2) d = rest"
      unfolding a c1(1) by (rule dropWhile_digits(1)[OF dg e1])
    show "pos c2 = pos c + length (sg @ S)"
      by (simp only: b c1(1) dropWhile_digits(2)[OF dg e1]) (simp add: c1(2))
  qed
  have nodot: "char_at d (pos c2) \<noteq> CHR ''.''"
  proof (cases rest)
    case Nil
    with c2(1) show ?thesis by (simp add: char_at_Nil)
  next
    case (Cons x xs)
    with c2(1) have "char_at d (pos c2) = x" by (simp add: char_at_Cons)
    with ends Cons show ?thesis by (simp add: number_ends_def)
  qed
  have tok: "substr d (pos c) (pos c2 - pos c) = show_int False i"
    using dr by (simp add: substr_def c2(2) T)
  show ?thesis
    using nodot tok c2(1)
    by (simp add: parseNumber_def Let_def c1_def[symmetric] c2_def[symmetric] stoi_show_int)
qed

lemma parseNumber_unfold:
  assumes "c1 = (if char_at d (pos c) = CHR ''-'' then advance1 d c else c)"
    and "c2 = skipDigits d c1"
  shows "parseNumber d c =
     (if char_at d (pos c2) = CHR ''.'' then
        (case stod (substr d (pos c) (pos (skipDigits d (advance1 d c2)) - pos c)) of
           Inl e \<Rightarrow> Inl e
         | Inr x \<Rightarrow> Inr (JDouble x, skipDigits d (advance1 d c2)))
      else
        (case stoi (substr d (pos c) (pos c2 - pos c)) of
           Inl e \<Rightarrow> Inl e
         | Inr i \<Rightarrow> Inr (JInteger i, c2)))"
  unfolding parseNumber_def Let_def assms ..

lemma not_digit_point: "\<not> is_digit (CHR ''.'')"
  by (simp add: is_digit_def less_eq_char_def)

lemma parseNumber_double:
  assumes dr: "drop (pos c) d = s @ rest" and pn: "point_number s" and st: "stod s = Inr x"
    and ends: "rest = [] \<or> \<not> is_digit (hd rest)"
  shows "\<exists>c'. parseNumber d c = Inr (JDouble x, c') \<and> drop (pos c') d = rest"
proof -
  define sg where "sg = (if hd s = CHR ''-'' then [CHR ''-''] else [])"
  define s1 where "s1 = (if hd s = CHR ''-'' then tl s else s)"
  define ip where "ip = takeWhile is_digit s1"
  define r where "r = dropWhile is_digit s1"
  define fp where "fp = tl r"
  from pn have ne: "s \<noteq> []" and hd: "hd s = CHR ''-'' \<or> is_digit (hd s)"
    by (simp_all add: point_number_def Let_def)
  from pn ne have r: "r \<noteq> []" "hd r = CHR ''.''" and fpd: "\<forall>ch \<in> set fp. is_digit ch"
    by (simp_all add: point_number_def Let_def r_def s1_def fp_def)
  from r have rc: "r = CHR ''.'' # fp" by (cases r) (simp_all add: fp_def)
  from ne have s: "s = sg @ s1" by (cases s) (simp_all add: sg_def s1_def)
  have s1: "s1 = ip @ CHR ''.'' # fp" unfolding rc[symmetric] ip_def r_def by simp
  have ipd: "\<forall>ch \<in> set ip. is_digit ch" by (auto simp: ip_def dest: set_takeWhileD)
  define c1 where "c1 = (if char_at d (pos c) = CHR ''-'' then advance1 d c else c)"
  define c2 where "c2 = skipDigits d c1"
  define c3 where "c3 = skipDigits d (advance1 d c2)"
  have "drop (pos c1) d = s1 @ rest \<and> pos c1 = pos c + length sg"
  proof (cases "hd s = CHR ''-''")
    case True
    with ne have "s = CHR ''-'' # s1" by (cases s) (simp_all add: s1_def)
    with dr have "drop (pos c) d = CHR ''-'' # s1 @ rest" by simp
    then show ?thesis using True
      by (simp add: c1_def char_at_Cons drop_Suc_Cons sg_def)
  next
    case False
    from dr ne have "drop (pos c) d = hd s # tl s @ rest" by simp
    then have "char_at d (pos c) = hd s" by (rule char_at_Cons)
    with False dr show ?thesis by (simp add: c1_def sg_def s1_def)
  qed
  then have c1a: "drop (pos c1) d = s1 @ rest" and c1b: "pos c1 = pos c + length sg"
    by blast+
  have c1: "drop (pos c1) d = ip @ CHR ''.'' # fp @ rest"
    unfolding c1a s1 by simp
  have c2: "drop (pos c2) d = CHR ''.'' # fp @ rest" "pos c2 = pos c1 + length ip"
  proof -
    from skipDigits_drop[of d c1] have
      a: "drop (pos c2) d = dropWhile is_digit (drop (pos c1) d)" and
      b: "pos c2 = pos c1 + length (takeWhile is_digit (drop (pos c1) d))"
      unfolding c2_def by blast+
    have e: "CHR ''.'' # fp @ rest = [] \<or> \<not> is_digit (hd (CHR ''.'' # fp @ rest))"
      by (simp add: not_digit_point)
    show "drop (pos c2) d = CHR ''.'' # fp @ rest"
      unfolding a c1 by (rule dropWhile_digits(1)[OF ipd e])
    show "pos c2 = pos c1 + length ip"
      by (simp only: b c1 dropWhile_digits(2)[OF ipd e])
  qed
  from c2(1) have dot: "char_at d (pos c2) = CHR ''.''" by (rule char_at_Cons)
  from c2(1) have a2: "drop (pos (advance1 d c2)) d = fp @ rest" by (simp add: drop_Suc_Cons)
  have c3: "drop (pos c3) d = rest" "pos c3 = Suc (pos c2) + length fp"
  proof -
    from skipDigits_drop[of d "advance1 d c2"] have
      a: "drop (pos c3) d = dropWhile is_digit (drop (pos (advance1 d c2)) d)" and
      b: "pos c3 = pos (advance1 d c2) + length (takeWhile is_digit (drop (pos (advance1 d c2)) d))"
      unfolding c3_def by blast+
    show "drop (pos c3) d = rest"
      unfolding a a2 by (rule dropWhile_digits(1)[OF fpd ends])
    show "pos c3 = Suc (pos c2) + length fp"
      by (simp only: b a2 dropWhile_digits(2)[OF fpd ends]) simp
  qed
  have len: "pos c3 - pos c = length s"
    by (simp add: c3(2) c2(2) c1b s s1)
  have tok: "substr d (pos c) (pos c3 - pos c) = s"
    unfolding len using dr by (simp add: substr_def)
  have "parseNumber d c = Inr (JDouble x, c3)"
    unfolding parseNumber_unfold[OF c1_def c2_def] c3_def[symmetric] tok
    using dot st by simp
  with c3(1) show ?thesis by simp
qed

lemma strncmp_eq_prefix: "drop p d = lit @ rest \<Longrightarrow> strncmp_eq d p lit"
  by (simp add: strncmp_eq_def)

lemma parseNull_text:
  "drop (pos c) d = ''null'' @ rest \<Longrightarrow>
     \<exists>c'. parseNull d c = Inr (JNull, c') \<and> drop (pos c') d = rest"
  using drop_prefix[of "pos c" d "''null''" rest]
  by (simp add: parseNull_def strncmp_eq_prefix eval_nat_numeral)

lemma parseBoolean_text:
  "drop (pos c) d = (if b then ''true'' else ''false'') @ rest \<Longrightarrow>
     \<exists>c'. parseBoolean d c = Inr (JBoolean b, c') \<and> drop (pos c') d = rest"
  using drop_prefix[of "pos c" d "''true''" rest] drop_prefix[of "pos c" d "''false''" rest]
  by (cases b) (simp_all add: parseBoolean_def strncmp_eq_def eval_nat_numeral)

lemma parseString_text:
  "drop (pos c) d = CHR 0x22 # concat (map esc s) @ CHR 0x22 # rest \<Longrightarrow>
     \<exists>c'. parseString d c = Inr (JString s, c') \<and> drop (pos c') d = rest"
  unfolding parseString_def
  using strLoop_esc[of "advance1 d c" d s rest "[]"] by (simp add: drop_Suc_Cons)

section \<open>The text the serializer appends\<close>

text \<open>
  Text already in the stream has no influence on what is written next: putting a
  prefix in front of the stream and writing commute.
\<close>

lemma put_prepend [simp]: "put s (prepend p oss) = prepend p (put s oss)"
  by (simp add: put_def prepend_def)

lemma hex_prepend [simp]: "hex (prepend p oss) = hex oss"
  by (simp add: prepend_def)

lemma out_prepend [simp]: "out (prepend p oss) = p @ out oss"
  by (simp add: prepend_def)

lemma hex_update_prepend [simp]: "(prepend p oss)\<lparr>hex := h\<rparr> = prepend p (oss\<lparr>hex := h\<rparr>)"
  by (simp add: prepend_def)

lemma dumpChar_prepend: "dumpChar sc ch (prepend p oss) = prepend p (dumpChar sc ch oss)"
  by (simp add: dumpChar_def)

lemma dumpChars_prepend:
  "foldl (\<lambda>os ch. dumpChar sc ch os) (prepend p oss) s =
     prepend p (foldl (\<lambda>os ch. dumpChar sc ch os) oss s)"
  by (induction s arbitrary: oss) (simp_all add: dumpChar_prepend)

lemma dumpString_prepend [simp]:
  "dumpString sc s (prepend p oss) = prepend p (dumpString sc s oss)"
  by (simp add: dumpString_def dumpChars_prepend)

lemma dump_prepend:
  fixes os0 :: ostream
  shows
  "\<forall>oss p. dumpValue sc v (prepend p oss) level indent = prepend p (dumpValue sc v oss level indent)"
  "\<forall>oss p. dumpArray sc arr (prepend p oss) level indent = prepend p (dumpArray sc arr oss level indent)"
  "\<forall>oss p. dumpItems sc pp arr (prepend p oss) level indent = prepend p (dumpItems sc pp arr oss level indent)"
  "\<forall>oss p. dumpObject sc obj (prepend p oss) level indent = prepend p (dumpObject sc obj oss level indent)"
  "\<forall>oss p. dumpMembers sc obj (prepend p oss) level indent = prepend p (dumpMembers sc obj oss level indent)"
proof (induction sc v os0 level indent and sc arr os0 level indent and sc pp arr os0 level indent
    and sc obj os0 level indent and sc obj os0 level indent
    rule: dumpValue_dumpArray_dumpItems_dumpObject_dumpMembers.induct)

  case (8 sc arr oss level indent)
  define PP where "PP = (hasComplexChildren arr \<and> 0 < indent)"
  have IH: "\<forall>oss p. dumpItems sc PP arr (prepend p oss) level indent =
      prepend p (dumpItems sc PP arr oss level indent)"
    using "8.IH"[OF refl refl refl] unfolding PP_def .
  from IH show ?case
    unfolding dumpArray.simps Let_def PP_def[symmetric] by (cases PP) simp_all
next
  case (10 sc prettyPrint item rest oss level indent)
  note IH1 = "10.IH"(1)[OF refl]
  note IH2 = "10.IH"(2)[OF refl refl refl refl]
  from IH1 IH2 show ?case
    by (cases prettyPrint) (simp_all add: Let_def)
qed (simp_all add: Let_def)

lemma prepend_stream: "prepend (out oss) (stream (hex oss)) = (oss :: ostream)"
  by (simp add: prepend_def stream_def)

lemma prepend_record: "prepend p (r :: ostream) = \<lparr>out = p @ out r, hex = hex r\<rparr>"
  by (simp add: prepend_def)

lemma dumpValue_eq:
  "dumpValue sc v oss level indent =
     \<lparr>out = out oss @ text_of sc (hex oss) v level indent,
      hex = hex_after sc (hex oss) v level indent\<rparr>"
proof -
  have "dumpValue sc v (prepend (out oss) (stream (hex oss))) level indent =
      prepend (out oss) (dumpValue sc v (stream (hex oss)) level indent)"
    using dump_prepend(1) by blast
  then have "dumpValue sc v oss level indent =
      prepend (out oss) (dumpValue sc v (stream (hex oss)) level indent)"
    by (simp only: prepend_stream)
  then show ?thesis
    by (simp only: prepend_record text_of_def hex_after_def)
qed

lemma dumpChar_out_hex:
  "out (dumpChar sc ch oss) = out oss @ out (dumpChar sc ch (stream False)) \<and>
   hex (dumpChar sc ch oss) = (hex oss \<or> needs_u sc ch)"
  by (auto simp: dumpChar_def stream_def needs_u_def)

lemma dumpChars_out_hex:
  "out (foldl (\<lambda>os ch. dumpChar sc ch os) oss s) =
     out oss @ out (foldl (\<lambda>os ch. dumpChar sc ch os) (stream False) s) \<and>
   hex (foldl (\<lambda>os ch. dumpChar sc ch os) oss s) = (hex oss \<or> (\<exists>ch \<in> set s. needs_u sc ch))"
proof (induction s arbitrary: oss rule: rev_induct)
  case Nil
  show ?case by (simp add: stream_def)
next
  case (snoc ch s)
  show ?case
    using snoc[of oss] dumpChar_out_hex[of sc ch "foldl (\<lambda>os ch. dumpChar sc ch os) oss s"]
      dumpChar_out_hex[of sc ch "foldl (\<lambda>os ch. dumpChar sc ch os) (stream False) s"]
    by auto
qed

lemma dumpString_eq:
  "dumpString sc s oss =
     \<lparr>out = out oss @ string_text sc s, hex = (hex oss \<or> (\<exists>ch \<in> set s. needs_u sc ch))\<rparr>"
  using dumpChars_out_hex[of sc "put [CHR 0x22] oss" s]
    dumpChars_out_hex[of sc "put [CHR 0x22] (stream False)" s]
  by (simp add: dumpString_def string_text_def stream_def put_def)

lemma item_texts_Nil_iff [simp]: "(item_texts sc hx xs level indent = []) = (xs = [])"
  by (cases xs) simp_all

lemma member_texts_Nil_iff [simp]: "(member_texts sc hx ms level indent = []) = (ms = [])"
  by (cases ms) auto

lemma join_Nil: "join sep [] = []"
  by simp

lemma join_Cons: "join sep (t # ts) = t @ (if ts = [] then [] else sep @ join sep ts)"
  by (cases ts) simp_all

lemma dumpItems_layout:
  "out (dumpItems sc pp xs oss level indent) =
     out oss @ (if pp then own_lines (spaces (level + indent)) (item_texts sc (hex oss) xs (level + indent) indent)
                else join '', '' (item_texts sc (hex oss) xs (level + indent) indent))"
proof (induction xs arbitrary: oss)
  case Nil
  show ?case by simp
next
  case (Cons x xs)
  show ?case
    by (simp add: Let_def Cons.IH dumpValue_eq join_Cons del: join.simps(2,3))
qed

lemma dumpMembers_layout:
  "out (dumpMembers sc ms oss level indent) =
     out oss @ (if 0 < indent
        then own_lines (spaces (level + indent))
               (map (\<lambda>(k, v). k @ '': '' @ v) (member_texts sc (hex oss) ms (level + indent) indent))
        else join '',''
               (map (\<lambda>(k, v). k @ '':'' @ v) (member_texts sc (hex oss) ms (level + indent) indent)))"
proof (induction ms arbitrary: oss)
  case Nil
  show ?case by simp
next
  case (Cons m ms)
  obtain k v where m: "m = (k, v)" by (cases m)
  show ?case
    by (simp add: m Let_def Cons.IH dumpValue_eq dumpString_eq join_Cons del: join.simps(2,3))
qed

lemma dumpArray_layout:
  "out (dumpArray sc arr oss level indent) =
     out oss @ (if hasComplexChildren arr \<and> 0 < indent
        then array_own_lines level indent (item_texts sc (hex oss) arr (level + indent) indent)
        else array_one_line (item_texts sc (hex oss) arr (level + indent) indent))"
  by (simp add: Let_def dumpItems_layout array_own_lines_def array_one_line_def)

lemma dumpObject_layout:
  "out (dumpObject sc obj oss level indent) =
     out oss @ (if 0 < indent
        then object_own_lines level indent (member_texts sc (hex oss) obj (level + indent) indent)
        else object_one_line (member_texts sc (hex oss) obj (level + indent) indent))"
  by (simp add: Let_def dumpMembers_layout object_own_lines_def object_one_line_def)

text \<open>No line break is written except by the two layouts with lines of their own.\<close>

lemma nl_show_nat: "CHR 0x0A \<notin> set (show_nat n)"
  using show_nat_digits[of "CHR 0x0A" n] by (auto simp: is_digit_def less_eq_char_def)

lemma hex_char_nl: "k < 16 \<Longrightarrow> hex_char k \<noteq> CHR 0x0A"
proof -
  assume "k < 16"
  then have "hex_char k \<in> set ''0123456789abcdef''"
    unfolding hex_char_def by (intro nth_mem) simp
  then show ?thesis by auto
qed

lemma nl_show_hex: "CHR 0x0A \<notin> set (show_hex n)"
proof (induction n rule: show_hex.induct)
  case (1 n)
  show ?case
  proof (cases "n < 16")
    case True
    then show ?thesis using hex_char_nl[of n] by (simp add: show_hex_small)
  next
    case False
    then show ?thesis using "1.IH" hex_char_nl[of "n mod 16"] by (simp add: show_hex_large)
  qed
qed

lemma nl_show_int: "CHR 0x0A \<notin> set (show_int hx i)"
  by (simp add: show_int_def nl_show_nat nl_show_hex)

lemma nl_strip_zeros: "CHR 0x0A \<notin> set s \<Longrightarrow> CHR 0x0A \<notin> set (strip_zeros s)"
  by (auto simp: strip_zeros_def dest: set_dropWhileD)

lemma nl_pad_left: "CHR 0x0A \<notin> set s \<Longrightarrow> CHR 0x0A \<notin> set (pad_left w s)"
  by (auto simp: pad_left_def)

lemma nl_hd_tl: "CHR 0x0A \<notin> set s \<Longrightarrow> s \<noteq> [] \<Longrightarrow> hd s \<noteq> CHR 0x0A \<and> CHR 0x0A \<notin> set (tl s)"
  by (cases s) auto

lemma nl_fmt_sci: "CHR 0x0A \<notin> set (fmt_sci D X)"
  using nl_hd_tl[OF nl_show_nat show_nat_nonempty, of D]
    nl_strip_zeros[of "tl (show_nat D)"] nl_pad_left[OF nl_show_nat, of 2 "nat \<bar>X\<bar>"]
  by (auto simp: fmt_sci_def Let_def)

lemma nl_fmt_fixed: "CHR 0x0A \<notin> set (fmt_fixed D X)"
proof -
  define k where "k = nat (5 - X)"
  define fr where "fr = strip_zeros (pad_left k (if k = 0 then [] else show_nat (D mod 10 ^ k)))"
  have "CHR 0x0A \<notin> set fr"
    unfolding fr_def by (intro nl_strip_zeros nl_pad_left) (simp add: nl_show_nat)
  then show ?thesis
    unfolding fmt_fixed_def Let_def k_def[symmetric] fr_def[symmetric]
    by (simp add: nl_show_nat)
qed

lemma nl_show_double: "CHR 0x0A \<notin> set (show_double w)"
  by (auto simp: show_double_def fmt_g6_def Let_def nl_fmt_sci nl_fmt_fixed)

lemma nl_dumpChar: "CHR 0x0A \<notin> set (out oss) \<Longrightarrow> CHR 0x0A \<notin> set (out (dumpChar sc ch oss))"
  using nl_pad_left[OF nl_show_int, of 4 True "word_of_int (char_int sc ch)"]
  by (auto simp: dumpChar_def)

lemma nl_dumpChars:
  "CHR 0x0A \<notin> set (out oss) \<Longrightarrow> CHR 0x0A \<notin> set (out (foldl (\<lambda>os ch. dumpChar sc ch os) oss s))"
  by (induction s arbitrary: oss) (simp_all add: nl_dumpChar)

lemma nl_string_text: "CHR 0x0A \<notin> set (string_text sc s)"
  using nl_dumpChars[of "put [CHR 0x22] (stream False)" sc s]
  by (simp add: string_text_def dumpString_def stream_def)

lemma out_stream [simp]: "out (stream hx) = []" and hex_stream [simp]: "hex (stream hx) = hx"
  by (simp_all add: stream_def)

lemma text_of_simps:
  "text_of sc hx JNull level indent = ''null''"
  "text_of sc hx (JBoolean b) level indent = (if b then ''true'' else ''false'')"
  "text_of sc hx (JInteger n) level indent = show_int hx n"
  "text_of sc hx (JDouble x) level indent = show_double x"
  "text_of sc hx (JString s) level indent = string_text sc s"
  "text_of sc hx (JArray arr) level indent =
     (if hasComplexChildren arr \<and> 0 < indent
      then array_own_lines level indent (item_texts sc hx arr (level + indent) indent)
      else array_one_line (item_texts sc hx arr (level + indent) indent))"
  "text_of sc hx (JObject obj) level indent =
     (if 0 < indent
      then object_own_lines level indent (member_texts sc hx obj (level + indent) indent)
      else object_one_line (member_texts sc hx obj (level + indent) indent))"
  using dumpArray_layout[of sc arr "stream hx" level indent]
    dumpObject_layout[of sc obj "stream hx" level indent]
    dumpString_eq[of sc s "stream hx"]
  by (simp_all add: text_of_def del: dumpArray.simps dumpObject.simps)

lemma item_texts_mem:
  "t \<in> set (item_texts sc hx xs level indent) \<Longrightarrow>
     \<exists>x \<in> set xs. \<exists>hx'. t = text_of sc hx' x level indent"
  by (induction xs arbitrary: hx) auto

lemma member_texts_mem:
  "(kt, vt) \<in> set (member_texts sc hx ms level indent) \<Longrightarrow>
     \<exists>m \<in> set ms. kt = string_text sc (fst m) \<and> (\<exists>hx'. vt = text_of sc hx' (snd m) level indent)"
proof (induction ms arbitrary: hx)
  case Nil
  then show ?case by simp
next
  case (Cons m ms)
  obtain k v where m: "m = (k, v)" by (cases m)
  from Cons.prems consider
    (hd) "kt = string_text sc k" "vt = text_of sc (hx \<or> (\<exists>ch \<in> set k. needs_u sc ch)) v level indent"
    | (tl) "(kt, vt) \<in> set (member_texts sc
         (hex_after sc (hx \<or> (\<exists>ch \<in> set k. needs_u sc ch)) v level indent) ms level indent)"
    by (auto simp: m)
  then show ?case
  proof cases
    case hd
    then show ?thesis by (auto simp: m)
  next
    case tl
    from Cons.IH[OF tl] show ?thesis by auto
  qed
qed

lemma nl_join:
  "\<forall>t \<in> set ts. CHR 0x0A \<notin> set t \<Longrightarrow> CHR 0x0A \<notin> set sep \<Longrightarrow> CHR 0x0A \<notin> set (join sep ts)"
  by (induction ts) (auto simp: join_Cons simp del: join.simps(2,3))

lemma nl_scalar:
  "getType v \<noteq> Array \<Longrightarrow> getType v \<noteq> Object \<Longrightarrow> CHR 0x0A \<notin> set (text_of sc hx v level indent)"
  by (cases v) (simp_all add: text_of_simps nl_show_int nl_show_double nl_string_text)

lemma nl_compact:
  "\<not> 0 < indent \<Longrightarrow> CHR 0x0A \<notin> set (text_of sc hx v level indent)"
proof (induction v arbitrary: hx level)
  case (JArray arr)
  have "\<forall>t \<in> set (item_texts sc hx arr (level + indent) indent). CHR 0x0A \<notin> set t"
    using JArray by (auto dest!: item_texts_mem)
  with JArray.prems show ?case
    by (simp add: text_of_simps array_one_line_def nl_join)
next
  case (JObject obj)
  have "\<forall>t \<in> set (map (\<lambda>(k, v). k @ '':'' @ v) (member_texts sc hx obj (level + indent) indent)).
      CHR 0x0A \<notin> set t"
  proof
    fix t
    assume "t \<in> set (map (\<lambda>(k, v). k @ '':'' @ v) (member_texts sc hx obj (level + indent) indent))"
    then obtain kt vt where m: "(kt, vt) \<in> set (member_texts sc hx obj (level + indent) indent)"
      and t: "t = kt @ '':'' @ vt" by auto
    from member_texts_mem[OF m] obtain k v hx' where kv: "(k, v) \<in> set obj"
      and kt: "kt = string_text sc k" and vt: "vt = text_of sc hx' v (level + indent) indent"
      by auto
    from kv have "v \<in> Basic_BNFs.snds (k, v)" by simp
    from JObject.IH[OF kv this JObject.prems] have "CHR 0x0A \<notin> set vt" by (simp add: vt)
    then show "CHR 0x0A \<notin> set t" by (simp add: t kt nl_string_text)
  qed
  with JObject.prems show ?case
    by (simp add: text_of_simps object_one_line_def nl_join)
qed (simp_all add: text_of_simps nl_show_int nl_show_double nl_string_text)

lemma nl_array_one_line:
  assumes "\<not> (hasComplexChildren arr \<and> 0 < indent)"
  shows "CHR 0x0A \<notin> set (array_one_line (item_texts sc hx arr level' indent))"
proof -
  have "\<forall>t \<in> set (item_texts sc hx arr level' indent). CHR 0x0A \<notin> set t"
  proof
    fix t
    assume "t \<in> set (item_texts sc hx arr level' indent)"
    from item_texts_mem[OF this] obtain x hx' where x: "x \<in> set arr"
      and t: "t = text_of sc hx' x level' indent" by auto
    show "CHR 0x0A \<notin> set t"
    proof (cases "0 < indent")
      case True
      with assms x have "getType x \<noteq> Array" "getType x \<noteq> Object"
        by (auto simp: hasComplexChildren_def)
      then show ?thesis unfolding t by (rule nl_scalar)
    next
      case False
      then show ?thesis unfolding t by (rule nl_compact)
    qed
  qed
  then show ?thesis by (simp add: array_one_line_def nl_join)
qed

lemma nl_object_one_line:
  assumes "\<not> 0 < indent"
  shows "CHR 0x0A \<notin> set (object_one_line (member_texts sc hx obj level' indent))"
  using nl_compact[OF assms, of sc hx "JObject obj" "level' - indent"] assms
  by (simp add: text_of_simps)

text \<open>
  Claim C9. An array is written with every element on a line of its own exactly when
  it has an element of tag \<open>Array\<close> or \<open>Object\<close> and \<open>indent > 0\<close>; in every other case it
  is written as its elements separated by a comma and a space, and that text has no
  line break. An object is written with every member on a line of its own whenever
  \<open>indent > 0\<close>, whatever the tags of its members, and otherwise as its members separated
  by commas, without a line break.
\<close>

theorem C9_array_and_object_layout:
  "out (dumpArray sc arr oss level indent) =
     out oss @ (if hasComplexChildren arr \<and> 0 < indent
        then array_own_lines level indent (item_texts sc (hex oss) arr (level + indent) indent)
        else array_one_line (item_texts sc (hex oss) arr (level + indent) indent)) \<and>
   (\<not> (hasComplexChildren arr \<and> 0 < indent) \<longrightarrow>
      CHR 0x0A \<notin> set (array_one_line (item_texts sc (hex oss) arr (level + indent) indent))) \<and>
   out (dumpObject sc obj oss level indent) =
     out oss @ (if 0 < indent
        then object_own_lines level indent (member_texts sc (hex oss) obj (level + indent) indent)
        else object_one_line (member_texts sc (hex oss) obj (level + indent) indent)) \<and>
   (\<not> 0 < indent \<longrightarrow>
      CHR 0x0A \<notin> set (object_one_line (member_texts sc (hex oss) obj (level + indent) indent)))"
  using dumpArray_layout[of sc arr oss level indent] dumpObject_layout[of sc obj oss level indent]
    nl_array_one_line[of arr indent sc "hex oss" "level + indent"]
    nl_object_one_line[of indent sc "hex oss" obj "level + indent"]
  by blast

theorem C9_array_and_object_layout_witness:
  "out (dumpArray True [JInteger 1, JArray []] (stream False) 0 4) =
     ''['' @ [CHR 0x0A] @ ''    1,'' @ [CHR 0x0A] @ ''    []'' @ [CHR 0x0A] @ '']'' \<and>
   out (dumpArray True [JInteger 1, JBoolean True] (stream False) 0 4) = ''[1, true]'' \<and>
   CHR 0x0A \<notin> set (array_one_line (item_texts True False [JInteger 1, JBoolean True] 4 4)) \<and>
   out (dumpObject True [(''a'', JInteger 1)] (stream False) 0 4) =
     ''{'' @ [CHR 0x0A] @ ''    '' @ [CHR 0x22] @ ''a'' @ [CHR 0x22] @ '': 1'' @ [CHR 0x0A] @ ''}'' \<and>
   out (dumpObject True [(''a'', JInteger 1)] (stream False) 0 0) =
     ''{'' @ [CHR 0x22] @ ''a'' @ [CHR 0x22] @ '':1}''"
  using C9_array_and_object_layout [of True "[JInteger 1, JArray []]" "stream False" 0 4 "[(''a'', JInteger 1)]"]
    C9_array_and_object_layout [of True "[JInteger 1, JBoolean True]" "stream False" 0 4 "[(''a'', JInteger 1)]"]
    C9_array_and_object_layout [of True "[]" "stream False" 0 0 "[(''a'', JInteger 1)]"]
  by (simp add: hasComplexChildren_def array_own_lines_def array_one_line_def object_own_lines_def
        object_one_line_def text_of_simps string_text_def hex_after_def needs_u_def dump_eval
        number_eval stream_def)

subsection \<open>Clean values\<close>

lemma string_text_plain:
  "\<forall>ch \<in> set s. \<not> needs_u sc ch \<Longrightarrow> string_text sc s = CHR 0x22 # concat (map esc s) @ [CHR 0x22]"
  by (simp add: string_text_def dumpString_plain stream_def put_def)

lemma dumpItems_hex:
  "(\<And>x hx l. x \<in> set xs \<Longrightarrow> hex_after sc hx x l indent = hx) \<Longrightarrow>
     hex (dumpItems sc pp xs oss level indent) = hex oss"
proof (induction xs arbitrary: oss)
  case Nil
  show ?case by simp
next
  case (Cons x xs)
  have "hex_after sc hx x l indent = hx" for hx l by (rule Cons.prems) simp
  moreover have "hex (dumpItems sc pp xs o' level indent) = hex o'" for o'
    by (rule Cons.IH) (simp add: Cons.prems)
  ultimately show ?case
    by (simp add: Let_def dumpValue_eq)
qed

lemma dumpMembers_hex:
  "(\<And>m hx l. m \<in> set ms \<Longrightarrow> hex_after sc hx (snd m) l indent = hx) \<Longrightarrow>
   (\<And>m ch. m \<in> set ms \<Longrightarrow> ch \<in> set (fst m) \<Longrightarrow> \<not> needs_u sc ch) \<Longrightarrow>
     hex (dumpMembers sc ms oss level indent) = hex oss"
proof (induction ms arbitrary: oss)
  case Nil
  show ?case by simp
next
  case (Cons m ms)
  obtain k v where m: "m = (k, v)" by (cases m)
  have v: "hex_after sc hx v l indent = hx" for hx l
    using Cons.prems(1)[of m] by (simp add: m)
  have k: "\<forall>ch \<in> set k. \<not> needs_u sc ch"
    using Cons.prems(2)[of m] by (simp add: m)
  have "hex (dumpMembers sc ms o' level indent) = hex o'" for o'
  proof (rule Cons.IH)
    fix m' hx l assume "m' \<in> set ms"
    then show "hex_after sc hx (snd m') l indent = hx" using Cons.prems(1)[of m'] by simp
  next
    fix m' ch assume "m' \<in> set ms" "ch \<in> set (fst m')"
    then show "\<not> needs_u sc ch" using Cons.prems(2)[of m' ch] by simp
  qed
  with v k show ?case
    by (simp add: m Let_def dumpValue_eq dumpString_eq)
qed

lemma clean_hex: "clean sc v \<Longrightarrow> hex_after sc hx v level indent = hx"
proof (induction v arbitrary: hx level)
  case (JString s)
  then show ?case by (simp add: hex_after_def dumpString_eq)
next
  case (JArray arr)
  have "hex (dumpItems sc pp arr o' level indent) = hex o'" for pp o'
    by (rule dumpItems_hex) (use JArray in auto)
  then show ?case by (simp add: hex_after_def Let_def)
next
  case (JObject obj)
  have "hex (dumpMembers sc obj o' level indent) = hex o'" for o'
  proof (rule dumpMembers_hex)
    fix m hx l assume m: "m \<in> set obj"
    have "snd m \<in> Basic_BNFs.snds m" by (cases m) simp
    from JObject.IH[OF m this] JObject.prems m show "hex_after sc hx (snd m) l indent = hx"
      by auto
  next
    fix m ch assume "m \<in> set obj" "ch \<in> set (fst m)"
    with JObject.prems show "\<not> needs_u sc ch" by auto
  qed
  then show ?case by (simp add: hex_after_def Let_def)
qed (simp_all add: hex_after_def)

lemma clean_item_texts:
  "\<forall>x \<in> set xs. clean sc x \<Longrightarrow>
     item_texts sc hx xs level indent = map (\<lambda>x. text_of sc hx x level indent) xs"
  by (induction xs) (simp_all add: clean_hex)

lemma clean_member_texts:
  "\<forall>m \<in> set ms. (\<forall>ch \<in> set (fst m). \<not> needs_u sc ch) \<and> clean sc (snd m) \<Longrightarrow>
     member_texts sc hx ms level indent =
       map (\<lambda>m. (CHR 0x22 # concat (map esc (fst m)) @ [CHR 0x22], text_of sc hx (snd m) level indent)) ms"
proof (induction ms)
  case Nil
  show ?case by simp
next
  case (Cons m ms)
  obtain k v where m: "m = (k, v)" by (cases m)
  from Cons.prems have k: "\<forall>ch \<in> set k. \<not> needs_u sc ch" and v: "clean sc v"
    by (simp_all add: m)
  from k have nk: "(hx \<or> (\<exists>ch \<in> set k. needs_u sc ch)) = hx" by auto
  from Cons show ?case
    by (simp add: m nk clean_hex[OF v] string_text_plain[OF k])
qed

subsection \<open>White space\<close>

lemma dw_space: "\<forall>ch \<in> set ws. isspace ch \<Longrightarrow> dropWhile isspace (ws @ xs) = dropWhile isspace xs"
  by simp

lemma dw_start: "xs \<noteq> [] \<Longrightarrow> \<not> isspace (hd xs) \<Longrightarrow> dropWhile isspace (xs @ ys) = xs @ ys"
  by (cases xs) simp_all

lemma spaces_space: "\<forall>ch \<in> set (spaces n). isspace ch"
  by (simp add: spaces_def isspace_def)

lemma isspace_simps [simp]:
  "isspace (CHR 0x0A)" "isspace (CHR 0x20)" "\<not> isspace (CHR '','')" "\<not> isspace (CHR '']'')"
  "\<not> isspace (CHR ''}'')" "\<not> isspace (CHR '':'')" "\<not> isspace (CHR 0x22)"
  "\<not> isspace (CHR ''['')" "\<not> isspace (CHR ''{'')"
  by (simp_all add: isspace_def)

lemma hd_show_nat_digit: "is_digit (hd (show_nat n))"
  using show_nat_digits[of "hd (show_nat n)" n] show_nat_nonempty[of n] by simp

lemma text_start:
  assumes "clean sc v"
  shows "text_of sc False v level indent \<noteq> [] \<and> \<not> isspace (hd (text_of sc False v level indent)) \<and>
         hd (text_of sc False v level indent) \<noteq> CHR '']''"
proof (cases v)
  case (JInteger n)
  have nd: "\<not> is_digit (CHR '']'')" by (simp add: is_digit_def less_eq_char_def)
  have "is_digit (hd (show_nat k))" for k by (rule hd_show_nat_digit)
  then have "\<not> isspace (hd (show_nat k)) \<and> hd (show_nat k) \<noteq> CHR '']''" for k
    using nd by (metis is_digit_not_space)
  then show ?thesis
    by (simp add: JInteger text_of_simps show_int_def show_nat_nonempty isspace_def)
next
  case (JString s)
  with assms show ?thesis by (simp add: text_of_simps string_text_plain)
next
  case (JDouble x)
  have nd: "\<not> is_digit (CHR '']'')" by (simp add: is_digit_def less_eq_char_def)
  from assms JDouble have ne: "show_double x \<noteq> []"
    and hd: "hd (show_double x) = CHR ''-'' \<or> is_digit (hd (show_double x))"
    by (simp_all add: point_number_def Let_def)
  from hd have "\<not> isspace (hd (show_double x)) \<and> hd (show_double x) \<noteq> CHR '']''"
    using nd by (auto simp: isspace_def dest: is_digit_not_space)
  with ne show ?thesis by (simp add: JDouble text_of_simps)
qed (simp_all add: text_of_simps array_own_lines_def array_one_line_def object_own_lines_def
       object_one_line_def isspace_def)

subsection \<open>Arrays\<close>

lemma array_body_Nil: "array_body pp ind fin [] = (if pp then fin else [])"
  by (simp add: array_body_def)

lemma array_body_Cons:
  "array_body pp ind fin (t # ts) =
     (if pp then ind else []) @ t @
     (if ts = [] then (if pp then [CHR 0x0A] else []) else (if pp then '','' @ [CHR 0x0A] else '', '')) @
     array_body pp ind fin ts"
  by (cases ts) (simp_all add: array_body_def)

lemma drop_head: "drop p d = x # xs \<Longrightarrow> char_at d p = x"
  by (simp add: char_at_drop)

lemma arrayLoop_text:
  assumes el: "\<And>x c rest. x \<in> set xs \<Longrightarrow> dropWhile isspace (drop (pos c) d) = T x @ rest \<Longrightarrow>
      number_ends rest \<Longrightarrow> \<exists>c'. parseValue d c = Inr (x, c') \<and> drop (pos c') d = rest"
    and st: "\<And>x. x \<in> set xs \<Longrightarrow> T x \<noteq> [] \<and> \<not> isspace (hd (T x)) \<and> hd (T x) \<noteq> CHR '']''"
    and ind: "\<forall>ch \<in> set ind. isspace ch"
    and fin: "\<forall>ch \<in> set fin. isspace ch"
    and dr: "drop (pos c) d = dropWhile isspace (array_body pp ind fin (map T xs) @ '']'' @ rest)"
  shows "\<exists>c'. arrayLoop d c acc = Inr (JArray (acc @ xs), c') \<and> drop (pos c') d = rest"
  using el st dr
proof (induction xs arbitrary: c acc)
  case Nil
  from Nil.prems(3) fin have "drop (pos c) d = CHR '']'' # rest"
    by (simp add: array_body_Nil dw_space)
  then show ?case
    by (simp add: arrayLoop.simps[of d c] drop_head drop_Suc_Cons)
next
  case (Cons x xs)
  define sepx where "sepx =
    (if xs = [] then (if pp then [CHR 0x0A] else []) else (if pp then '','' @ [CHR 0x0A] else '', ''))"
  define B where "B = array_body pp ind fin (map T xs) @ '']'' @ rest"
  define R where "R = sepx @ B"
  from Cons.prems(2)[of x] have tx: "T x \<noteq> []" "\<not> isspace (hd (T x))" "hd (T x) \<noteq> CHR '']''"
    by simp_all
  have "array_body pp ind fin (map T (x # xs)) @ '']'' @ rest = (if pp then ind else []) @ T x @ R"
    by (simp add: array_body_Cons R_def B_def sepx_def)
  with Cons.prems(3) ind tx have dr': "drop (pos c) d = T x @ R"
    by (simp add: dw_space dw_start)
  with tx have ch: "char_at d (pos c) \<noteq> CHR '']''"
    by (cases "T x") (simp_all add: drop_head)
  have hdB: "B \<noteq> [] \<and> (xs = [] \<longrightarrow> dropWhile isspace B = CHR '']'' # rest)"
    using fin by (auto simp: B_def array_body_Nil dw_space)
  have ends: "number_ends R"
  proof (cases "xs = []")
    case True
    then have "R = (if pp then CHR 0x0A # fin @ '']'' @ rest else '']'' @ rest)"
      by (simp add: R_def sepx_def B_def array_body_Nil)
    then show ?thesis
      by (simp add: number_ends_def is_digit_def less_eq_char_def)
  next
    case False
    then have "hd R = CHR '',''" "R \<noteq> []" by (simp_all add: R_def sepx_def)
    then show ?thesis by (simp add: number_ends_def is_digit_def less_eq_char_def)
  qed
  from dr' tx have "dropWhile isspace (drop (pos c) d) = T x @ R" by (simp add: dw_start)
  from Cons.prems(1)[OF _ this ends] obtain c1 where
    pv: "parseValue d c = Inr (x, c1)" and d1: "drop (pos c1) d = R" by auto
  define c2 where "c2 = skipWhitespace d c1"
  define c3 where "c3 = (if char_at d (pos c2) = CHR '','' then skipWhitespace d (advance1 d c2) else c2)"
  have d2: "drop (pos c2) d = dropWhile isspace R"
    by (simp add: c2_def skipWhitespace_drop d1)
  have d3: "drop (pos c3) d = dropWhile isspace B"
  proof (cases "xs = []")
    case True
    then have "dropWhile isspace R = dropWhile isspace B"
      by (simp add: R_def sepx_def)
    with d2 hdB True have e: "drop (pos c2) d = CHR '']'' # rest" "dropWhile isspace B = CHR '']'' # rest"
      by simp_all
    then have "char_at d (pos c2) = CHR '']''" by (simp add: drop_head)
    with e show ?thesis by (simp add: c3_def)
  next
    case False
    then have R: "R = CHR '','' # (if pp then [CHR 0x0A] else '' '') @ B"
      by (simp add: R_def sepx_def)
    with d2 have e: "drop (pos c2) d = CHR '','' # (if pp then [CHR 0x0A] else '' '') @ B"
      by simp
    then have "char_at d (pos c2) = CHR '',''" by (simp add: drop_head)
    moreover from e have "drop (pos (advance1 d c2)) d = (if pp then [CHR 0x0A] else '' '') @ B"
      by (simp add: drop_Suc_Cons)
    ultimately show ?thesis
      by (simp add: c3_def skipWhitespace_drop)
  qed
  have "\<exists>c'. arrayLoop d c3 (acc @ [x]) = Inr (JArray ((acc @ [x]) @ xs), c') \<and> drop (pos c') d = rest"
  proof (rule Cons.IH)
    show "\<exists>c'. parseValue d c = Inr (y, c') \<and> drop (pos c') d = r"
      if "y \<in> set xs" "dropWhile isspace (drop (pos c) d) = T y @ r" "number_ends r" for y c r
      using Cons.prems(1)[of y c r] that by simp
    show "T y \<noteq> [] \<and> \<not> isspace (hd (T y)) \<and> hd (T y) \<noteq> CHR '']''" if "y \<in> set xs" for y
      using Cons.prems(2)[of y] that by simp
    show "drop (pos c3) d = dropWhile isspace (array_body pp ind fin (map T xs) @ '']'' @ rest)"
      using d3 by (simp add: B_def)
  qed
  moreover have "arrayLoop d c acc = arrayLoop d c3 (acc @ [x])"
    using ch pv by (simp add: arrayLoop.simps[of d c] Let_def c2_def c3_def)
  ultimately show ?case by simp
qed

subsection \<open>Objects\<close>

lemma object_body_Nil: "object_body pp ind fin [] = (if pp then fin else [])"
  by (simp add: object_body_def)

lemma object_body_Cons:
  "object_body pp ind fin (m # ms) =
     (if pp then ind else []) @ member_line pp m @
     (if ms = [] then (if pp then [CHR 0x0A] else []) else (if pp then '','' @ [CHR 0x0A] else '','')) @
     object_body pp ind fin ms"
  by (cases ms) (simp_all add: object_body_def)

lemma map_assign_append:
  "\<forall>k' \<in> set (map fst acc). k' < k \<Longrightarrow> map_assign k v acc = acc @ [(k, v)]"
  by (induction acc) auto

lemma objectLoop_text:
  assumes el: "\<And>m c rest. m \<in> set ms \<Longrightarrow> dropWhile isspace (drop (pos c) d) = T (snd m) @ rest \<Longrightarrow>
      number_ends rest \<Longrightarrow> \<exists>c'. parseValue d c = Inr (snd m, c') \<and> drop (pos c') d = rest"
    and st: "\<And>m. m \<in> set ms \<Longrightarrow> T (snd m) \<noteq> [] \<and> \<not> isspace (hd (T (snd m)))"
    and ind: "\<forall>ch \<in> set ind. isspace ch"
    and fin: "\<forall>ch \<in> set fin. isspace ch"
    and sorted: "sorted_wrt (<) (map fst (acc @ ms))"
    and dr: "drop (pos c) d = dropWhile isspace
      (object_body pp ind fin
         (map (\<lambda>m. (CHR 0x22 # concat (map esc (fst m)) @ [CHR 0x22], T (snd m))) ms) @ ''}'' @ rest)"
  shows "\<exists>c'. objectLoop d c acc = Inr (JObject (acc @ ms), c') \<and> drop (pos c') d = rest"
  using el st sorted dr
proof (induction ms arbitrary: c acc)
  case Nil
  from Nil.prems(4) fin have "drop (pos c) d = CHR ''}'' # rest"
    by (simp add: object_body_Nil dw_space)
  then show ?case
    by (simp add: objectLoop.simps[of d c] drop_head drop_Suc_Cons)
next
  case (Cons m ms)
  obtain k v where m: "m = (k, v)" by (cases m)
  define sepx where "sepx =
    (if ms = [] then (if pp then [CHR 0x0A] else []) else (if pp then '','' @ [CHR 0x0A] else '',''))"
  define B where "B = object_body pp ind fin
     (map (\<lambda>m. (CHR 0x22 # concat (map esc (fst m)) @ [CHR 0x22], T (snd m))) ms) @ ''}'' @ rest"
  define R where "R = sepx @ B"
  define V where "V = (if pp then '' '' else []) @ T v @ R"
  from Cons.prems(2)[of m] have tv: "T v \<noteq> []" "\<not> isspace (hd (T v))"
    by (simp_all add: m)
  have "object_body pp ind fin
      (map (\<lambda>m. (CHR 0x22 # concat (map esc (fst m)) @ [CHR 0x22], T (snd m))) (m # ms)) @ ''}'' @ rest =
      (if pp then ind else []) @ CHR 0x22 # concat (map esc k) @ CHR 0x22 # CHR '':'' # V"
    by (simp add: object_body_Cons member_line_def R_def B_def sepx_def V_def m)
  with Cons.prems(4) ind have dr': "drop (pos c) d = CHR 0x22 # concat (map esc k) @ CHR 0x22 # CHR '':'' # V"
    by (simp add: dw_space)
  then have ch: "char_at d (pos c) \<noteq> CHR ''}''" by (simp add: drop_head)
  from parseString_text[OF dr'] obtain c1 where
    ps: "parseString d c = Inr (JString k, c1)" and d1: "drop (pos c1) d = CHR '':'' # V" by auto
  define c2 where "c2 = skipWhitespace d c1"
  have d2: "drop (pos c2) d = CHR '':'' # V"
    by (simp add: c2_def skipWhitespace_drop d1)
  then have colon: "char_at d (pos c2) = CHR '':''" by (simp add: drop_head)
  from d2 have "drop (pos (advance1 d c2)) d = V" by (simp add: drop_Suc_Cons)
  with tv have dv: "dropWhile isspace (drop (pos (advance1 d c2)) d) = T v @ R"
    by (simp add: V_def dw_start)
  have hdB: "B \<noteq> [] \<and> (ms = [] \<longrightarrow> dropWhile isspace B = CHR ''}'' # rest)"
    using fin by (auto simp: B_def object_body_Nil dw_space)
  have ends: "number_ends R"
  proof (cases "ms = []")
    case True
    then have "R = (if pp then CHR 0x0A # fin @ ''}'' @ rest else ''}'' @ rest)"
      by (simp add: R_def sepx_def B_def object_body_Nil)
    then show ?thesis
      by (simp add: number_ends_def is_digit_def less_eq_char_def)
  next
    case False
    then have "hd R = CHR '',''" "R \<noteq> []" by (simp_all add: R_def sepx_def)
    then show ?thesis by (simp add: number_ends_def is_digit_def less_eq_char_def)
  qed
  from Cons.prems(1)[of m "advance1 d c2" R] dv ends obtain c3 where
    pv: "parseValue d (advance1 d c2) = Inr (v, c3)" and d3: "drop (pos c3) d = R"
    by (auto simp: m)
  define c4 where "c4 = skipWhitespace d c3"
  define c5 where "c5 = (if char_at d (pos c4) = CHR '','' then skipWhitespace d (advance1 d c4) else c4)"
  have d4: "drop (pos c4) d = dropWhile isspace R"
    by (simp add: c4_def skipWhitespace_drop d3)
  have d5: "drop (pos c5) d = dropWhile isspace B"
  proof (cases "ms = []")
    case True
    then have "dropWhile isspace R = dropWhile isspace B"
      by (simp add: R_def sepx_def)
    with d4 hdB True have e: "drop (pos c4) d = CHR ''}'' # rest" "dropWhile isspace B = CHR ''}'' # rest"
      by simp_all
    then have "char_at d (pos c4) = CHR ''}''" by (simp add: drop_head)
    with e show ?thesis by (simp add: c5_def)
  next
    case False
    then have R: "R = CHR '','' # (if pp then [CHR 0x0A] else []) @ B"
      by (simp add: R_def sepx_def)
    with d4 have e: "drop (pos c4) d = CHR '','' # (if pp then [CHR 0x0A] else []) @ B"
      by simp
    then have "char_at d (pos c4) = CHR '',''" by (simp add: drop_head)
    moreover from e have "drop (pos (advance1 d c4)) d = (if pp then [CHR 0x0A] else []) @ B"
      by (simp add: drop_Suc_Cons)
    ultimately show ?thesis
      by (simp add: c5_def skipWhitespace_drop)
  qed
  from Cons.prems(3) have "\<forall>k' \<in> set (map fst acc). k' < k"
    by (auto simp: m sorted_wrt_append)
  then have ma: "map_assign k v acc = acc @ [(k, v)]" by (rule map_assign_append)
  have "\<exists>c'. objectLoop d c5 (acc @ [(k, v)]) = Inr (JObject ((acc @ [(k, v)]) @ ms), c') \<and>
      drop (pos c') d = rest"
  proof (rule Cons.IH)
    show "\<exists>c'. parseValue d c = Inr (snd y, c') \<and> drop (pos c') d = r"
      if "y \<in> set ms" "dropWhile isspace (drop (pos c) d) = T (snd y) @ r" "number_ends r" for y c r
      using Cons.prems(1)[of y c r] that by simp
    show "T (snd y) \<noteq> [] \<and> \<not> isspace (hd (T (snd y)))" if "y \<in> set ms" for y
      using Cons.prems(2)[of y] that by simp
    show "sorted_wrt (<) (map fst ((acc @ [(k, v)]) @ ms))"
      using Cons.prems(3) by (simp add: m)
    show "drop (pos c5) d = dropWhile isspace
      (object_body pp ind fin
         (map (\<lambda>m. (CHR 0x22 # concat (map esc (fst m)) @ [CHR 0x22], T (snd m))) ms) @ ''}'' @ rest)"
      using d5 by (simp add: B_def)
  qed
  moreover have "objectLoop d c acc = objectLoop d c5 (acc @ [(k, v)])"
    using ch ps colon pv ma
    by (simp add: objectLoop.simps[of d c] Let_def c2_def c4_def c5_def get_string_def)
  ultimately show ?case by (simp add: m)
qed

subsection \<open>Values\<close>

lemma array_layout_body:
  "(if pp then array_own_lines level indent ts else array_one_line ts) =
     CHR ''['' # (if pp then [CHR 0x0A] else []) @
       array_body pp (spaces (level + indent)) (spaces level) ts @ '']''"
  by (simp add: array_own_lines_def array_one_line_def array_body_def)

lemma object_layout_body:
  "(if pp then object_own_lines level indent ms else object_one_line ms) =
     CHR ''{'' # (if pp then [CHR 0x0A] else []) @
       object_body pp (spaces (level + indent)) (spaces level) ms @ ''}''"
  by (auto simp: object_own_lines_def object_one_line_def object_body_def member_line_def
        split_def cong: map_cong)

lemma is_digit_dispatch:
  "is_digit ch \<Longrightarrow> ch \<noteq> CHR ''{'' \<and> ch \<noteq> CHR ''['' \<and> ch \<noteq> CHR 0x22 \<and> ch \<noteq> CHR ''t'' \<and>
     ch \<noteq> CHR ''f'' \<and> ch \<noteq> CHR ''n''"
  by (auto simp: is_digit_def less_eq_char_def)

lemma parseValue_text:
  assumes "clean sc v" and "wf_JSON v"
    and "dropWhile isspace (drop (pos c) d) = text_of sc False v level indent @ rest"
    and "number_ends rest"
  shows "\<exists>c'. parseValue d c = Inr (v, c') \<and> drop (pos c') d = rest"
  using assms
proof (induction v arbitrary: c level rest)
  case JNull
  define c0 where "c0 = skipWhitespace d c"
  from JNull.prems(3) have d0: "drop (pos c0) d = ''null'' @ rest"
    by (simp add: c0_def skipWhitespace_drop text_of_simps)
  then have "char_at d (pos c0) = CHR ''n''" by (simp add: drop_head)
  then have "parseValue d c = parseNull d c0"
    by (simp add: parseValue.simps[of d c] Let_def c0_def)
  with parseNull_text[OF d0] show ?case by simp
next
  case (JBoolean b)
  define c0 where "c0 = skipWhitespace d c"
  from JBoolean.prems(3) have d0: "drop (pos c0) d = (if b then ''true'' else ''false'') @ rest"
    by (simp add: c0_def skipWhitespace_drop text_of_simps)
  then have "char_at d (pos c0) = (if b then CHR ''t'' else CHR ''f'')"
    by (cases b) (simp_all add: drop_head)
  then have "parseValue d c = parseBoolean d c0"
    by (cases b) (simp_all add: parseValue.simps[of d c] Let_def c0_def)
  with parseBoolean_text[OF d0] show ?case by simp
next
  case (JInteger n)
  define c0 where "c0 = skipWhitespace d c"
  from JInteger.prems(3) have d0: "drop (pos c0) d = show_int False n @ rest"
    by (simp add: c0_def skipWhitespace_drop text_of_simps)
  have "show_int False n \<noteq> [] \<and> (hd (show_int False n) = CHR ''-'' \<or> is_digit (hd (show_int False n)))"
    by (simp add: show_int_def show_nat_nonempty hd_show_nat_digit)
  with d0 have "char_at d (pos c0) = CHR ''-'' \<or> is_digit (char_at d (pos c0))"
    by (cases "show_int False n") (simp_all add: drop_head)
  then have "parseValue d c = parseNumber d c0"
    using is_digit_dispatch[of "char_at d (pos c0)"]
    by (auto simp: parseValue.simps[of d c] Let_def c0_def is_digit_def)
  with parseNumber_int[OF d0 JInteger.prems(4)] show ?case by simp
next
  case (JDouble x)
  define c0 where "c0 = skipWhitespace d c"
  from JDouble.prems(3) have d0: "drop (pos c0) d = show_double x @ rest"
    by (simp add: c0_def skipWhitespace_drop text_of_simps)
  from JDouble.prems(1) have pn: "point_number (show_double x)"
    and st: "stod (show_double x) = Inr x" by simp_all
  from pn have "show_double x \<noteq> [] \<and>
      (hd (show_double x) = CHR ''-'' \<or> is_digit (hd (show_double x)))"
    by (simp add: point_number_def Let_def)
  with d0 have "char_at d (pos c0) = CHR ''-'' \<or> is_digit (char_at d (pos c0))"
    by (cases "show_double x") (simp_all add: drop_head)
  then have "parseValue d c = parseNumber d c0"
    using is_digit_dispatch[of "char_at d (pos c0)"]
    by (auto simp: parseValue.simps[of d c] Let_def c0_def is_digit_def)
  moreover from JDouble.prems(4) have "rest = [] \<or> \<not> is_digit (hd rest)"
    by (auto simp: number_ends_def)
  from parseNumber_double[OF d0 pn st this]
  have "\<exists>c'. parseNumber d c0 = Inr (JDouble x, c') \<and> drop (pos c') d = rest" .
  ultimately show ?case by simp
next
  case (JString s)
  define c0 where "c0 = skipWhitespace d c"
  from JString.prems have d0: "drop (pos c0) d = CHR 0x22 # concat (map esc s) @ CHR 0x22 # rest"
    by (simp add: c0_def skipWhitespace_drop text_of_simps string_text_plain)
  then have "char_at d (pos c0) = CHR 0x22" by (simp add: drop_head)
  then have "parseValue d c = parseString d c0"
    by (simp add: parseValue.simps[of d c] Let_def c0_def)
  with parseString_text[OF d0] show ?case by simp
next
  case (JArray arr)
  define c0 where "c0 = skipWhitespace d c"
  define pp where "pp = (hasComplexChildren arr \<and> 0 < indent)"
  define T where "T = (\<lambda>x. text_of sc False x (level + indent) indent)"
  define body where "body = array_body pp (spaces (level + indent)) (spaces level) (map T arr)"
  from JArray.prems(1) have cl: "\<forall>x \<in> set arr. clean sc x" by simp
  have tx: "text_of sc False (JArray arr) level indent =
      CHR ''['' # (if pp then [CHR 0x0A] else []) @ body @ '']''"
    unfolding text_of_simps clean_item_texts[OF cl] pp_def[symmetric] T_def[symmetric] body_def
    by (rule array_layout_body)
  with JArray.prems(3) have d0: "drop (pos c0) d = CHR ''['' # (if pp then [CHR 0x0A] else []) @ body @ '']'' @ rest"
    by (simp add: c0_def skipWhitespace_drop)
  then have "char_at d (pos c0) = CHR ''[''" by (simp add: drop_head)
  then have pv: "parseValue d c = arrayLoop d (skipWhitespace d (advance1 d c0)) []"
    by (simp add: parseValue.simps[of d c] Let_def c0_def parseArray.simps)
  from d0 have "drop (pos (advance1 d c0)) d = (if pp then [CHR 0x0A] else []) @ body @ '']'' @ rest"
    by (simp add: drop_Suc_Cons)
  then have d1: "drop (pos (skipWhitespace d (advance1 d c0))) d = dropWhile isspace (body @ '']'' @ rest)"
    by (simp add: skipWhitespace_drop)
  have "\<exists>c'. arrayLoop d (skipWhitespace d (advance1 d c0)) [] = Inr (JArray ([] @ arr), c') \<and>
      drop (pos c') d = rest"
  proof (rule arrayLoop_text[where T = T and ind = "spaces (level + indent)" and fin = "spaces level" and pp = pp])
    show "\<exists>c'. parseValue d c = Inr (x, c') \<and> drop (pos c') d = r"
      if "x \<in> set arr" "dropWhile isspace (drop (pos c) d) = T x @ r" "number_ends r" for x c r
      using JArray.IH[of x c "level + indent" r] that JArray.prems(1,2) by (simp add: T_def)
    show "T x \<noteq> [] \<and> \<not> isspace (hd (T x)) \<and> hd (T x) \<noteq> CHR '']''" if "x \<in> set arr" for x
      unfolding T_def using that cl by (intro text_start) simp
    show "\<forall>ch \<in> set (spaces (level + indent)). isspace ch" by (rule spaces_space)
    show "\<forall>ch \<in> set (spaces level). isspace ch" by (rule spaces_space)
    show "drop (pos (skipWhitespace d (advance1 d c0))) d =
        dropWhile isspace (array_body pp (spaces (level + indent)) (spaces level) (map T arr) @ '']'' @ rest)"
      using d1 by (simp add: body_def)
  qed
  with pv show ?case by simp
next
  case (JObject obj)
  define c0 where "c0 = skipWhitespace d c"
  define pp where "pp = (0 < indent)"
  define T where "T = (\<lambda>x. text_of sc False x (level + indent) indent)"
  define body where "body = object_body pp (spaces (level + indent)) (spaces level)
      (map (\<lambda>m. (CHR 0x22 # concat (map esc (fst m)) @ [CHR 0x22], T (snd m))) obj)"
  from JObject.prems(1) have cl: "\<forall>m \<in> set obj. (\<forall>ch \<in> set (fst m). \<not> needs_u sc ch) \<and> clean sc (snd m)"
    by simp
  have tx: "text_of sc False (JObject obj) level indent =
      CHR ''{'' # (if pp then [CHR 0x0A] else []) @ body @ ''}''"
    unfolding text_of_simps clean_member_texts[OF cl] pp_def[symmetric] body_def T_def
    by (rule object_layout_body)
  with JObject.prems(3) have d0: "drop (pos c0) d = CHR ''{'' # (if pp then [CHR 0x0A] else []) @ body @ ''}'' @ rest"
    by (simp add: c0_def skipWhitespace_drop)
  then have "char_at d (pos c0) = CHR ''{''" by (simp add: drop_head)
  then have pv: "parseValue d c = objectLoop d (skipWhitespace d (advance1 d c0)) []"
    by (simp add: parseValue.simps[of d c] Let_def c0_def parseObject.simps)
  from d0 have "drop (pos (advance1 d c0)) d = (if pp then [CHR 0x0A] else []) @ body @ ''}'' @ rest"
    by (simp add: drop_Suc_Cons)
  then have d1: "drop (pos (skipWhitespace d (advance1 d c0))) d = dropWhile isspace (body @ ''}'' @ rest)"
    by (simp add: skipWhitespace_drop)
  have "\<exists>c'. objectLoop d (skipWhitespace d (advance1 d c0)) [] = Inr (JObject ([] @ obj), c') \<and>
      drop (pos c') d = rest"
  proof (rule objectLoop_text[where T = T and ind = "spaces (level + indent)" and fin = "spaces level" and pp = pp])
    show "\<exists>c'. parseValue d c = Inr (snd m, c') \<and> drop (pos c') d = r"
      if "m \<in> set obj" "dropWhile isspace (drop (pos c) d) = T (snd m) @ r" "number_ends r" for m c r
    proof -
      have "snd m \<in> Basic_BNFs.snds m" by (cases m) simp
      from JObject.IH[OF that(1) this, of c "level + indent" r] that JObject.prems(1,2)
      show ?thesis by (simp add: T_def)
    qed
    show "T (snd m) \<noteq> [] \<and> \<not> isspace (hd (T (snd m)))" if "m \<in> set obj" for m
      unfolding T_def using text_start[of sc "snd m" "level + indent" indent] that cl by simp
    show "\<forall>ch \<in> set (spaces (level + indent)). isspace ch" by (rule spaces_space)
    show "\<forall>ch \<in> set (spaces level). isspace ch" by (rule spaces_space)
    show "sorted_wrt (<) (map fst ([] @ obj))" using JObject.prems(2) by simp
    show "drop (pos (skipWhitespace d (advance1 d c0))) d =
        dropWhile isspace (object_body pp (spaces (level + indent)) (spaces level)
          (map (\<lambda>m. (CHR 0x22 # concat (map esc (fst m)) @ [CHR 0x22], T (snd m))) obj) @ ''}'' @ rest)"
      using d1 by (simp add: body_def)
  qed
  with pv show ?case by simp
qed

text \<open>
  Claim C1, as it stands, fails on a \<open>Double\<close>: the value 1.0 is written as \<open>1\<close>, which is
  read back as the \<open>Integer\<close> 1 (on either kind of platform).
\<close>

theorem C1_double_counterexample:
  "parse (dump True (JDouble 0x3FF0000000000000) 4) = Inr (JInteger 1) \<and>
   parse (dump False (JDouble 0x3FF0000000000000) 4) = Inr (JInteger 1)"
proof -
  have "dump sc (JDouble 0x3FF0000000000000) 4 = ''1''" for sc
    by (simp add: dump_eval number_eval)
  moreover have "parse ''1'' = Inr (JInteger 1)"
    by (simp add: parse_eval)
  ultimately show ?thesis by simp
qed

text \<open>
  Claim C1, amended. For every well-formed value in which every \<open>Double\<close> is written as a
  number with a point (no exponent, not an infinity or a NaN) that \<open>std::stod\<close> reads
  back as the same double, and whose strings and keys have no byte that \<open>dumpString\<close>
  writes as a hexadecimal escape, parsing the text of \<open>dump\<close>, at any indent, succeeds and
  yields the value itself. This is \<open>clean\<close>; the doubles 1.5, -2.5 and 0.1 are of this
  kind, 1.0 is not.
\<close>

theorem C1_roundtrip:
  assumes "wf_JSON v" and "clean sc v"
  shows "parse (dump sc v indent) = Inr v"
proof -
  define d where "d = text_of sc False v 0 indent"
  have dump: "dump sc v indent = d"
    by (simp add: dump_def d_def text_of_def stream_def)
  from text_start[OF assms(2), of 0 indent] have st: "d \<noteq> []" "\<not> isspace (hd d)"
    by (simp_all add: d_def)
  then have "dropWhile isspace d = d" by (cases d) simp_all
  then have "dropWhile isspace (drop (pos (skipWhitespace d initial)) d) =
      text_of sc False v 0 indent @ []"
    by (simp add: skipWhitespace_drop initial_def d_def)
  from parseValue_text[OF assms(2,1) this] obtain c' where
    "parseValue d (skipWhitespace d initial) = Inr (v, c')"
    by (auto simp: number_ends_def)
  then show ?thesis by (simp add: dump parse_def)
qed

theorem C1_roundtrip_witness:
  "parse (dump True (JObject [(''a'', JArray [JInteger (- 7), JDouble 0x3FF8000000000000,
        JString [CHR ''x'', CHR 0x0A, CHR 0x22], JArray [], JBoolean False]),
        (''b'', JDouble 0xC004000000000000), (''c'', JArray [JDouble 0x3FB999999999999A, JNull])]) 4) =
     Inr (JObject [(''a'', JArray [JInteger (- 7), JDouble 0x3FF8000000000000,
        JString [CHR ''x'', CHR 0x0A, CHR 0x22], JArray [], JBoolean False]),
        (''b'', JDouble 0xC004000000000000), (''c'', JArray [JDouble 0x3FB999999999999A, JNull])])"
  using C1_roundtrip [of "JObject [(''a'', JArray [JInteger (- 7), JDouble 0x3FF8000000000000,
        JString [CHR ''x'', CHR 0x0A, CHR 0x22], JArray [], JBoolean False]),
        (''b'', JDouble 0xC004000000000000), (''c'', JArray [JDouble 0x3FB999999999999A, JNull])]" True 4]
  by (simp add: needs_u_def char_int_def less_char_def point_number_def stod_def
      round_to_double_def number_eval is_digit_def less_eq_char_def isspace_def dec_val_def)

section \<open>What a successful parse has read\<close>

text \<open>Every production that succeeds has moved the cursor forward, and not beyond the text.\<close>

lemma parse_progress:
  "\<forall>v c'. parseValue d c0 = Inr (v, c') \<longrightarrow> pos c0 < pos c' \<and> pos c' \<le> length d"
  "\<forall>v c'. parseObject d c = Inr (v, c') \<longrightarrow> pos c < pos c' \<and> pos c' \<le> length d"
  "\<forall>v c'. objectLoop d c obj = Inr (v, c') \<longrightarrow> pos c < pos c' \<and> pos c' \<le> length d"
  "\<forall>v c'. parseArray d c = Inr (v, c') \<longrightarrow> pos c < pos c' \<and> pos c' \<le> length d"
  "\<forall>v c'. arrayLoop d c arr = Inr (v, c') \<longrightarrow> pos c < pos c' \<and> pos c' \<le> length d"
proof (induct rule: parseValue_parseObject_objectLoop_parseArray_arrayLoop.induct)
  case (1 d c0)
  define c where "c = skipWhitespace d c0"
  have le: "pos c0 \<le> pos c" unfolding c_def by (rule skipWhitespace_pos)
  show ?case
  proof (intro allI impI)
    fix v c'
    assume "parseValue d c0 = Inr (v, c')"
    then have r: "(if char_at d (pos c) = CHR ''{'' then parseObject d c
      else if char_at d (pos c) = CHR ''['' then parseArray d c
      else if char_at d (pos c) = CHR 0x22 then parseString d c
      else if char_at d (pos c) = CHR ''t'' \<or> char_at d (pos c) = CHR ''f'' then parseBoolean d c
      else if char_at d (pos c) = CHR ''n'' then parseNull d c
      else if char_at d (pos c) = CHR ''-'' \<or> (CHR ''0'' \<le> char_at d (pos c) \<and> char_at d (pos c) \<le> CHR ''9'')
        then parseNumber d c
      else Inl (throwError ''Unexpected character in JSON'' c)) = Inr (v, c')"
      unfolding parseValue.simps[of d c0] Let_def c_def .
    have "pos c < pos c' \<and> pos c' \<le> length d"
    proof (cases "char_at d (pos c) = CHR ''{''")
      case True
      with r "1.hyps"(1)[OF c_def refl True] show ?thesis by simp
    next
      case no: False
      show ?thesis
      proof (cases "char_at d (pos c) = CHR ''[''")
        case True
        with no r "1.hyps"(2)[OF c_def refl no True] show ?thesis by simp
      next
        case False
        with no r show ?thesis
          by (auto split: if_splits
                   dest: parseString_progress parseBoolean_progress parseNull_progress
                         parseNumber_progress)
      qed
    qed
    with le show "pos c0 < pos c' \<and> pos c' \<le> length d" by simp
  qed
next
  case (2 d c)
  have "pos c < pos (skipWhitespace d (advance1 d c))"
    using skipWhitespace_pos[of "advance1 d c" d] by simp
  with 2 show ?case
    by (simp add: parseObject.simps[of d c]) (meson less_trans)
next
  case (3 d c obj)
  show ?case
  proof (intro allI impI)
    fix v c'
    assume r: "objectLoop d c obj = Inr (v, c')"
    show "pos c < pos c' \<and> pos c' \<le> length d"
    proof (cases "char_at d (pos c) = CHR ''}''")
      case True
      then have "pos c < length d" by (auto dest: char_at_eq_bound)
      with True r show ?thesis
        by (auto simp: objectLoop.simps[of d c])
    next
      case False
      with r obtain k c1 where ps: "parseString d c = Inr (k, c1)"
        by (auto simp: objectLoop.simps[of d c] split: sum.splits)
      with False r obtain key where gs: "get_string k = Inr key"
        by (auto simp: objectLoop.simps[of d c] split: sum.splits)
      define c2 where "c2 = skipWhitespace d c1"
      from False r ps gs have colon: "\<not> char_at d (pos c2) \<noteq> CHR '':''"
        by (auto simp: objectLoop.simps[of d c] Let_def c2_def split: if_splits)
      with False r ps gs obtain x c3 where pv: "parseValue d (advance1 d c2) = Inr (x, c3)"
        by (auto simp: objectLoop.simps[of d c] Let_def c2_def split: sum.splits)
      define c4 where "c4 = skipWhitespace d c3"
      define c5 where "c5 = (if char_at d (pos c4) = CHR '','' then skipWhitespace d (advance1 d c4) else c4)"
      from False r ps gs colon pv have rec: "objectLoop d c5 (map_assign key x obj) = Inr (v, c')"
        by (auto simp: objectLoop.simps[of d c] Let_def c2_def c4_def c5_def)
      from ps have p1: "pos c < pos c1" by (auto dest: parseString_progress)
      have p2: "pos c1 \<le> pos c2" unfolding c2_def by (rule skipWhitespace_pos)
      from "3.hyps"(1)[OF False ps refl gs c2_def colon] pv
      have p3: "pos (advance1 d c2) < pos c3" by simp
      have p4: "pos c3 \<le> pos c4" unfolding c4_def by (rule skipWhitespace_pos)
      have p5: "pos c4 \<le> pos c5"
        using skipWhitespace_pos[of "advance1 d c4" d] by (simp add: c5_def)
      from "3.hyps"(2)[OF False ps refl gs c2_def colon pv refl c4_def c5_def] rec
      have "pos c5 < pos c' \<and> pos c' \<le> length d" by simp
      with p1 p2 p3 p4 p5 show ?thesis by simp
    qed
  qed
next
  case (4 d c)
  have "pos c < pos (skipWhitespace d (advance1 d c))"
    using skipWhitespace_pos[of "advance1 d c" d] by simp
  with 4 show ?case
    by (simp add: parseArray.simps[of d c]) (meson less_trans)
next
  case (5 d c arr)
  show ?case
  proof (intro allI impI)
    fix v c'
    assume r: "arrayLoop d c arr = Inr (v, c')"
    show "pos c < pos c' \<and> pos c' \<le> length d"
    proof (cases "char_at d (pos c) = CHR '']''")
      case True
      then have "pos c < length d" by (auto dest: char_at_eq_bound)
      with True r show ?thesis
        by (auto simp: arrayLoop.simps[of d c])
    next
      case False
      with r obtain x c1 where pv: "parseValue d c = Inr (x, c1)"
        by (auto simp: arrayLoop.simps[of d c] split: sum.splits)
      define c2 where "c2 = skipWhitespace d c1"
      define c3 where "c3 = (if char_at d (pos c2) = CHR '','' then skipWhitespace d (advance1 d c2) else c2)"
      from False r pv have rec: "arrayLoop d c3 (arr @ [x]) = Inr (v, c')"
        by (auto simp: arrayLoop.simps[of d c] Let_def c2_def c3_def)
      from "5.hyps"(1)[OF False] pv have p1: "pos c < pos c1" by simp
      have p2: "pos c1 \<le> pos c2" unfolding c2_def by (rule skipWhitespace_pos)
      have p3: "pos c2 \<le> pos c3"
        using skipWhitespace_pos[of "advance1 d c2" d] by (simp add: c3_def)
      from "5.hyps"(2)[OF False pv refl c2_def c3_def] rec
      have "pos c3 < pos c' \<and> pos c' \<le> length d" by simp
      with p1 p2 p3 show ?thesis by simp
    qed
  qed
qed

section \<open>Text after the value\<close>

text \<open>
  What a production reads of a text \<open>s\<close> it reads in the same way of any longer text
  \<open>s @ t\<close>, as long as it stays inside \<open>s\<close>.
\<close>

lemma char_at_app: "p < length s \<Longrightarrow> char_at (s @ t) p = char_at s p"
  by (simp add: char_at_def nth_append)

lemma char_at_app_end: "char_at (s @ t) (length s) = (if t = [] then CHR 0x00 else hd t)"
  by (cases t) (simp_all add: char_at_def nth_append)

lemma advance1_app: "pos c < length s \<Longrightarrow> advance1 (s @ t) c = advance1 s c"
  by (simp add: advance1_def char_at_app)

lemma advance_app: "pos c + n \<le> length s \<Longrightarrow> advance (s @ t) n c = advance s n c"
  by (induction n arbitrary: c) (simp_all add: advance1_app)

lemma skipWhitespace_app:
  "pos (skipWhitespace s c) < length s \<Longrightarrow> skipWhitespace (s @ t) c = skipWhitespace s c"
proof (induction s c rule: skipWhitespace.induct)
  case (1 s c)
  have "pos c \<le> pos (skipWhitespace s c)" by (rule skipWhitespace_pos)
  with "1.prems" have b: "pos c < length s" by simp
  show ?case
  proof (cases "char_at s (pos c) \<noteq> CHR 0x00 \<and> isspace (char_at s (pos c))")
    case True
    with "1.prems" have "pos (skipWhitespace s (advance1 s c)) < length s"
      by (simp add: skipWhitespace.simps[of s c])
    from "1.IH"[OF True this] True b show ?thesis
      by (simp add: skipWhitespace.simps[of s c] skipWhitespace.simps[of "s @ t" c]
          char_at_app advance1_app)
  next
    case False
    then have "skipWhitespace s c = c" by (auto simp: skipWhitespace.simps[of s c])
    moreover from False b have "skipWhitespace (s @ t) c = c"
      by (auto simp: skipWhitespace.simps[of "s @ t" c] char_at_app)
    ultimately show ?thesis by simp
  qed
qed

lemma skipDigits_app:
  "\<not> is_digit (char_at (s @ t) (pos (skipDigits s c))) \<Longrightarrow>
   skipDigits (s @ t) c = skipDigits s c"
proof (induction s c rule: skipDigits.induct)
  case (1 s c)
  show ?case
  proof (cases "is_digit (char_at s (pos c))")
    case True
    then have b: "pos c < length s"
      by (auto dest: is_digit_nonzero char_at_nonzero)
    from "1.prems" True
    have "\<not> is_digit (char_at (s @ t) (pos (skipDigits s (advance1 s c))))"
      by (simp add: skipDigits.simps[of s c])
    from "1.IH"[OF True this] True b show ?thesis
      by (simp add: skipDigits.simps[of s c] skipDigits.simps[of "s @ t" c]
          char_at_app advance1_app)
  next
    case False
    then have "skipDigits s c = c" by (simp add: skipDigits.simps[of s c])
    with "1.prems" show ?thesis by (simp add: skipDigits.simps[of "s @ t" c])
  qed
qed

lemma skipDigits_stop: "\<not> is_digit (char_at d (pos (skipDigits d c)))"
proof (induction d c rule: skipDigits.induct)
  case (1 d c)
  then show ?case by (simp add: skipDigits.simps[of d c])
qed

lemma unescape_nonzero: "unescape ch = Some e \<Longrightarrow> ch \<noteq> CHR 0x00"
  by (auto simp: unescape_def)

lemma strLoop_app: "strLoop s c str = Inr r \<Longrightarrow> strLoop (s @ t) c str = Inr r"
proof (induction s c str rule: strLoop.induct)
  case (1 s c str)
  obtain v c' where r: "r = (v, c')" by (cases r)
  from "1.prems" have le: "\<not> length s < pos c"
    by (auto simp: strLoop.simps[of s c] split: if_splits)
  from strLoop_progress[OF "1.prems"[unfolded r]] have b: "pos c < length s" by simp
  then have le': "\<not> length (s @ t) < pos c" by simp
  show ?case
  proof (cases "char_at s (pos c) = CHR 0x22")
    case True
    with b le le' "1.prems" show ?thesis
      by (simp add: strLoop.simps[of s c] strLoop.simps[of "s @ t" c] char_at_app advance1_app)
  next
    case q: False
    show ?thesis
    proof (cases "char_at s (pos c) = CHR 0x5C")
      case True
      with q le "1.prems" obtain e where
        e: "unescape (char_at s (pos (advance1 s c))) = Some e"
        and rr: "strLoop s (advance1 s (advance1 s c)) (str @ [e]) = Inr r"
        by (auto simp: strLoop.simps[of s c] Let_def split: option.splits)
      from e have b1: "pos (advance1 s c) < length s"
        by (auto dest!: unescape_nonzero char_at_nonzero)
      from "1.IH"(1)[OF le q True refl e rr]
      have "strLoop (s @ t) (advance1 s (advance1 s c)) (str @ [e]) = Inr r" .
      with q True b b1 e le' show ?thesis
        by (simp add: strLoop.simps[of "s @ t" c] char_at_app advance1_app Let_def)
    next
      case False
      with q le "1.prems" have
        rr: "strLoop s (advance1 s c) (str @ [char_at s (pos c)]) = Inr r"
        by (auto simp: strLoop.simps[of s c])
      from "1.IH"(2)[OF le q False rr] q False b le' show ?thesis
        by (simp add: strLoop.simps[of "s @ t" c] char_at_app advance1_app)
    qed
  qed
qed

lemma parseString_app:
  assumes "parseString s c = Inr r"
  shows "parseString (s @ t) c = Inr r"
proof -
  obtain v c' where r: "r = (v, c')" by (cases r)
  from assms have l: "strLoop s (advance1 s c) [] = Inr (v, c')"
    by (simp add: parseString_def r)
  from strLoop_progress[OF l] have "pos c < length s" by simp
  with strLoop_app[OF l, of t] show ?thesis
    by (simp add: parseString_def r advance1_app)
qed

lemma strncmp_eq_app:
  assumes "strncmp_eq s p lit"
  shows "strncmp_eq (s @ t) p lit"
proof -
  from assms have e: "take (length lit) (drop p s) = lit" by (simp add: strncmp_eq_def)
  then have "length (take (length lit) (drop p s)) = length lit" by simp
  then have "length lit \<le> length s - p" by simp
  with e show ?thesis by (simp add: strncmp_eq_def)
qed

lemma strncmp_eq_hd: "strncmp_eq d p lit \<Longrightarrow> lit \<noteq> [] \<Longrightarrow> char_at d p = hd lit"
  by (cases "drop p d"; cases lit) (auto simp: strncmp_eq_def char_at_drop)

lemma parseBoolean_app:
  assumes "parseBoolean s c = Inr r"
  shows "parseBoolean (s @ t) c = Inr r"
proof (cases "strncmp_eq s (pos c) ''true''")
  case True
  from strncmp_eq_bound[OF True] have "pos c + 4 \<le> length s" by simp
  with True assms strncmp_eq_app[OF True, of t] show ?thesis
    by (simp add: parseBoolean_def advance_app)
next
  case False
  with assms have f: "strncmp_eq s (pos c) ''false''"
    by (auto simp: parseBoolean_def split: if_splits)
  from strncmp_eq_bound[OF f] have b: "pos c + 5 \<le> length s" by simp
  have "\<not> strncmp_eq (s @ t) (pos c) ''true''"
  proof
    assume "strncmp_eq (s @ t) (pos c) ''true''"
    from strncmp_eq_hd[OF this] strncmp_eq_hd[OF strncmp_eq_app[OF f, of t]]
    show False by simp
  qed
  with False f assms strncmp_eq_app[OF f, of t] b show ?thesis
    by (simp add: parseBoolean_def advance_app)
qed

lemma parseNull_app:
  assumes "parseNull s c = Inr r"
  shows "parseNull (s @ t) c = Inr r"
proof -
  from assms have n: "strncmp_eq s (pos c) ''null''"
    by (auto simp: parseNull_def split: if_splits)
  from strncmp_eq_bound[OF n] have "pos c + 4 \<le> length s" by simp
  with n assms strncmp_eq_app[OF n, of t] show ?thesis
    by (simp add: parseNull_def advance_app)
qed

lemma substr_app: "start + n \<le> length s \<Longrightarrow> substr (s @ t) start n = substr s start n"
  by (simp add: substr_def)

lemma not_digit_zero: "\<not> is_digit (CHR 0x00)"
  by (simp add: is_digit_def less_eq_char_def)

lemma parseNumber_app:
  assumes r: "parseNumber s c = Inr (v, c')"
    and b: "pos c < length s"
    and e: "pos c' < length s \<or> value_ends v t"
  shows "parseNumber (s @ t) c = Inr (v, c')"
proof -
  define c1 where "c1 = (if char_at s (pos c) = CHR ''-'' then advance1 s c else c)"
  define c2 where "c2 = skipDigits s c1"
  have c1': "c1 = (if char_at (s @ t) (pos c) = CHR ''-'' then advance1 (s @ t) c else c)"
    using b by (simp add: c1_def char_at_app advance1_app)
  from b have "pos c1 \<le> length s" by (simp add: c1_def)
  then have b2: "pos c2 \<le> length s" unfolding c2_def by (rule skipDigits_bound)
  note u = parseNumber_unfold[OF c1_def c2_def]
  show ?thesis
  proof (cases "char_at s (pos c2) = CHR ''.''")
    case True
    then have lt: "pos c2 < length s" by (auto dest: char_at_eq_bound)
    with True have ch: "char_at (s @ t) (pos c2) = CHR ''.''" by (simp add: char_at_app)
    then have "\<not> is_digit (char_at (s @ t) (pos (skipDigits s c1)))"
      by (simp add: c2_def[symmetric] not_digit_point)
    then have c2': "c2 = skipDigits (s @ t) c1"
      unfolding c2_def by (rule skipDigits_app[symmetric])
    define c3 where "c3 = skipDigits s (advance1 s c2)"
    from r True obtain x where x: "stod (substr s (pos c) (pos c3 - pos c)) = Inr x"
      and v: "v = JDouble x" and c': "c' = c3"
      by (auto simp: u c3_def split: sum.splits)
    from lt have "pos (advance1 s c2) \<le> length s" by simp
    then have b3: "pos c3 \<le> length s" unfolding c3_def by (rule skipDigits_bound)
    have "\<not> is_digit (char_at (s @ t) (pos c3))"
    proof (cases "pos c3 < length s")
      case True
      then show ?thesis by (simp add: char_at_app c3_def skipDigits_stop)
    next
      case False
      with b3 have eq: "pos c3 = length s" by simp
      with e v c' have "value_ends (JDouble x) t" by simp
      then show ?thesis
        by (auto simp: eq char_at_app_end value_ends_def not_digit_zero)
    qed
    then have "skipDigits (s @ t) (advance1 s c2) = c3"
      unfolding c3_def by (rule skipDigits_app)
    with lt have c3': "skipDigits (s @ t) (advance1 (s @ t) c2) = c3"
      by (simp add: advance1_app)
    from b b3 have "substr (s @ t) (pos c) (pos c3 - pos c) = substr s (pos c) (pos c3 - pos c)"
      by (intro substr_app) simp
    with x ch show ?thesis
      by (simp add: parseNumber_unfold[OF c1' c2'] c3' v c')
  next
    case False
    with r obtain i where i: "stoi (substr s (pos c) (pos c2 - pos c)) = Inr i"
      and v: "v = JInteger i" and c': "c' = c2"
      by (auto simp: u split: sum.splits)
    have ch: "\<not> is_digit (char_at (s @ t) (pos c2)) \<and> char_at (s @ t) (pos c2) \<noteq> CHR ''.''"
    proof (cases "pos c2 < length s")
      case True
      with False show ?thesis by (simp add: char_at_app c2_def skipDigits_stop)
    next
      case nlt: False
      with b2 have eq: "pos c2 = length s" by simp
      with e v c' have "value_ends (JInteger i) t" by simp
      then show ?thesis
        by (auto simp: eq char_at_app_end value_ends_def number_ends_def not_digit_zero)
    qed
    then have "\<not> is_digit (char_at (s @ t) (pos (skipDigits s c1)))"
      by (simp add: c2_def[symmetric])
    then have c2': "c2 = skipDigits (s @ t) c1"
      unfolding c2_def by (rule skipDigits_app[symmetric])
    from b b2 have "substr (s @ t) (pos c) (pos c2 - pos c) = substr s (pos c) (pos c2 - pos c)"
      by (intro substr_app) simp
    with i ch show ?thesis
      by (simp add: parseNumber_unfold[OF c1' c2'] v c')
  qed
qed

text \<open>
  A container is read up to its closing bracket, so that the text after it has no part
  in the result; a string and a literal likewise. Only a number looks at the byte that
  follows it.
\<close>

lemma parse_app:
  "\<forall>v c'. parseValue s c0 = Inr (v, c') \<longrightarrow> (pos c' < length s \<or> value_ends v t) \<longrightarrow>
     parseValue (s @ t) c0 = Inr (v, c')"
  "\<forall>r. pos c < length s \<longrightarrow> parseObject s c = Inr r \<longrightarrow> parseObject (s @ t) c = Inr r"
  "\<forall>r. objectLoop s c obj = Inr r \<longrightarrow> objectLoop (s @ t) c obj = Inr r"
  "\<forall>r. pos c < length s \<longrightarrow> parseArray s c = Inr r \<longrightarrow> parseArray (s @ t) c = Inr r"
  "\<forall>r. arrayLoop s c arr = Inr r \<longrightarrow> arrayLoop (s @ t) c arr = Inr r"
proof (induct s c0 and s c and s c obj and s c and s c arr
    rule: parseValue_parseObject_objectLoop_parseArray_arrayLoop.induct)
  case (1 d c0)
  define c where "c = skipWhitespace d c0"
  show ?case
  proof (intro allI impI)
    fix v c'
    assume pv: "parseValue d c0 = Inr (v, c')"
      and e: "pos c' < length d \<or> value_ends v t"
    from pv have r: "(if char_at d (pos c) = CHR ''{'' then parseObject d c
      else if char_at d (pos c) = CHR ''['' then parseArray d c
      else if char_at d (pos c) = CHR 0x22 then parseString d c
      else if char_at d (pos c) = CHR ''t'' \<or> char_at d (pos c) = CHR ''f'' then parseBoolean d c
      else if char_at d (pos c) = CHR ''n'' then parseNull d c
      else if char_at d (pos c) = CHR ''-'' \<or> (CHR ''0'' \<le> char_at d (pos c) \<and> char_at d (pos c) \<le> CHR ''9'')
        then parseNumber d c
      else Inl (throwError ''Unexpected character in JSON'' c)) = Inr (v, c')"
      unfolding parseValue.simps[of d c0] Let_def c_def .
    have "char_at d (pos c) \<noteq> CHR 0x00"
    proof
      assume "char_at d (pos c) = CHR 0x00"
      with r show False by (simp add: less_eq_char_def)
    qed
    then have b: "pos c < length d" by (rule char_at_nonzero)
    then have sw: "skipWhitespace (d @ t) c0 = c"
      unfolding c_def by (rule skipWhitespace_app)
    from b have ch: "char_at (d @ t) (pos c) = char_at d (pos c)" by (rule char_at_app)
    have r': "parseValue (d @ t) c0 =
      (if char_at d (pos c) = CHR ''{'' then parseObject (d @ t) c
      else if char_at d (pos c) = CHR ''['' then parseArray (d @ t) c
      else if char_at d (pos c) = CHR 0x22 then parseString (d @ t) c
      else if char_at d (pos c) = CHR ''t'' \<or> char_at d (pos c) = CHR ''f'' then parseBoolean (d @ t) c
      else if char_at d (pos c) = CHR ''n'' then parseNull (d @ t) c
      else if char_at d (pos c) = CHR ''-'' \<or> (CHR ''0'' \<le> char_at d (pos c) \<and> char_at d (pos c) \<le> CHR ''9'')
        then parseNumber (d @ t) c
      else Inl (throwError ''Unexpected character in JSON'' c))"
      unfolding parseValue.simps[of "d @ t" c0] Let_def sw ch ..
    show "parseValue (d @ t) c0 = Inr (v, c')"
    proof (cases "char_at d (pos c) = CHR ''{''")
      case True
      with r have "parseObject d c = Inr (v, c')" by simp
      with "1.hyps"(1)[OF c_def refl True] b True show ?thesis by (simp add: r')
    next
      case no: False
      show ?thesis
      proof (cases "char_at d (pos c) = CHR ''[''")
        case True
        with no r have "parseArray d c = Inr (v, c')" by simp
        with "1.hyps"(2)[OF c_def refl no True] b no True show ?thesis by (simp add: r')
      next
        case na: False
        show ?thesis
        proof (cases "char_at d (pos c) = CHR 0x22")
          case True
          with no na r have "parseString d c = Inr (v, c')" by simp
          from parseString_app[OF this, of t] no na True show ?thesis by (simp add: r')
        next
          case ns: False
          show ?thesis
          proof (cases "char_at d (pos c) = CHR ''t'' \<or> char_at d (pos c) = CHR ''f''")
            case True
            with no na ns r have "parseBoolean d c = Inr (v, c')" by auto
            from parseBoolean_app[OF this, of t] no na ns True show ?thesis by (auto simp: r')
          next
            case nb: False
            show ?thesis
            proof (cases "char_at d (pos c) = CHR ''n''")
              case True
              with no na ns nb r have "parseNull d c = Inr (v, c')" by simp
              from parseNull_app[OF this, of t] no na ns nb True show ?thesis by (simp add: r')
            next
              case nn: False
              show ?thesis
              proof (cases "char_at d (pos c) = CHR ''-'' \<or>
                  (CHR ''0'' \<le> char_at d (pos c) \<and> char_at d (pos c) \<le> CHR ''9'')")
                case True
                with no na ns nb nn r have "parseNumber d c = Inr (v, c')" by auto
                from parseNumber_app[OF this b e] no na ns nb nn True show ?thesis
                  by (auto simp: r')
              next
                case False
                with no na ns nb nn r show ?thesis by auto
              qed
            qed
          qed
        qed
      qed
    qed
  qed
next
  case (2 d c)
  show ?case
  proof (intro allI impI)
    fix r
    assume b: "pos c < length d" and po: "parseObject d c = Inr r"
    obtain v c' where r: "r = (v, c')" by (cases r)
    define c1 where "c1 = skipWhitespace d (advance1 d c)"
    from po have ol: "objectLoop d c1 [] = Inr r"
      by (simp add: parseObject.simps[of d c] c1_def)
    from parse_progress(3)[of d c1 "[]"] ol have "pos c1 < length d" by (simp add: r)
    then have "skipWhitespace (d @ t) (advance1 d c) = c1"
      unfolding c1_def by (rule skipWhitespace_app)
    with b have "parseObject (d @ t) c = objectLoop (d @ t) c1 []"
      by (simp add: parseObject.simps[of "d @ t" c] advance1_app)
    with 2[unfolded c1_def[symmetric]] ol show "parseObject (d @ t) c = Inr r" by simp
  qed
next
  case (3 d c obj)
  show ?case
  proof (intro allI impI)
    fix r
    assume ol: "objectLoop d c obj = Inr r"
    obtain v c' where r: "r = (v, c')" by (cases r)
    show "objectLoop (d @ t) c obj = Inr r"
    proof (cases "char_at d (pos c) = CHR ''}''")
      case True
      then have "pos c < length d" by (auto dest: char_at_eq_bound)
      with True ol show ?thesis
        by (simp add: objectLoop.simps[of d c] objectLoop.simps[of "d @ t" c]
            char_at_app advance1_app)
    next
      case False
      with ol obtain k c1 where ps: "parseString d c = Inr (k, c1)"
        by (auto simp: objectLoop.simps[of d c] split: sum.splits)
      with False ol obtain key where gs: "get_string k = Inr key"
        by (auto simp: objectLoop.simps[of d c] split: sum.splits)
      define c2 where "c2 = skipWhitespace d c1"
      from False ol ps gs have colon: "\<not> char_at d (pos c2) \<noteq> CHR '':''"
        by (auto simp: objectLoop.simps[of d c] Let_def c2_def split: if_splits)
      with False ol ps gs obtain x c3 where pv: "parseValue d (advance1 d c2) = Inr (x, c3)"
        by (auto simp: objectLoop.simps[of d c] Let_def c2_def split: sum.splits)
      define c4 where "c4 = skipWhitespace d c3"
      define c5 where "c5 = (if char_at d (pos c4) = CHR '','' then skipWhitespace d (advance1 d c4) else c4)"
      from False ol ps gs colon pv have rec: "objectLoop d c5 (map_assign key x obj) = Inr r"
        by (auto simp: objectLoop.simps[of d c] Let_def c2_def c4_def c5_def)
      from ps have "pos c < pos c1 \<and> pos c1 \<le> length d" by (rule parseString_progress)
      then have b: "pos c < length d" by simp
      from colon have b2: "pos c2 < length d" by (auto dest: char_at_eq_bound)
      from parse_progress(3)[of d c5 "map_assign key x obj"] rec
      have b5: "pos c5 < length d" by (simp add: r)
      have b4: "pos c4 < length d"
      proof (cases "char_at d (pos c4) = CHR '',''")
        case True
        then show ?thesis by (auto dest: char_at_eq_bound)
      next
        case False
        with b5 show ?thesis by (simp add: c5_def)
      qed
      have "pos c3 \<le> pos c4" unfolding c4_def by (rule skipWhitespace_pos)
      with b4 have b3: "pos c3 < length d" by simp
      from b False have nb: "char_at (d @ t) (pos c) \<noteq> CHR ''}''" by (simp add: char_at_app)
      from ps have ps': "parseString (d @ t) c = Inr (k, c1)" by (rule parseString_app)
      from b2 have sw2: "skipWhitespace (d @ t) c1 = c2"
        unfolding c2_def by (rule skipWhitespace_app)
      from b2 colon have colon': "char_at (d @ t) (pos c2) = CHR '':''" by (simp add: char_at_app)
      from b2 have adv: "advance1 (d @ t) c2 = advance1 d c2" by (rule advance1_app)
      from "3.hyps"(1)[OF False ps refl gs c2_def colon] pv b3
      have pv': "parseValue (d @ t) (advance1 d c2) = Inr (x, c3)" by simp
      from b4 have sw4: "skipWhitespace (d @ t) c3 = c4"
        unfolding c4_def by (rule skipWhitespace_app)
      have c5': "(if char_at (d @ t) (pos c4) = CHR '','' then
          skipWhitespace (d @ t) (advance1 (d @ t) c4) else c4) = c5"
      proof (cases "char_at d (pos c4) = CHR '',''")
        case True
        then have c5: "c5 = skipWhitespace d (advance1 d c4)" by (simp add: c5_def)
        with b5 have "skipWhitespace (d @ t) (advance1 d c4) = skipWhitespace d (advance1 d c4)"
          by (intro skipWhitespace_app) simp
        with True b4 c5 show ?thesis by (simp add: char_at_app advance1_app)
      next
        case False
        with b4 show ?thesis by (simp add: char_at_app c5_def)
      qed
      have "objectLoop (d @ t) c obj = objectLoop (d @ t) c5 (map_assign key x obj)"
        by (simp add: objectLoop.simps[of "d @ t" c] nb ps' gs sw2 colon' adv pv' sw4 c5' Let_def
            split del: if_split cong: if_cong)
      with "3.hyps"(2)[OF False ps refl gs c2_def colon pv refl c4_def c5_def] rec
      show ?thesis by simp
    qed
  qed
next
  case (4 d c)
  show ?case
  proof (intro allI impI)
    fix r
    assume b: "pos c < length d" and pa: "parseArray d c = Inr r"
    obtain v c' where r: "r = (v, c')" by (cases r)
    define c1 where "c1 = skipWhitespace d (advance1 d c)"
    from pa have al: "arrayLoop d c1 [] = Inr r"
      by (simp add: parseArray.simps[of d c] c1_def)
    from parse_progress(5)[of d c1 "[]"] al have "pos c1 < length d" by (simp add: r)
    then have "skipWhitespace (d @ t) (advance1 d c) = c1"
      unfolding c1_def by (rule skipWhitespace_app)
    with b have "parseArray (d @ t) c = arrayLoop (d @ t) c1 []"
      by (simp add: parseArray.simps[of "d @ t" c] advance1_app)
    with 4[unfolded c1_def[symmetric]] al show "parseArray (d @ t) c = Inr r" by simp
  qed
next
  case (5 d c arr)
  show ?case
  proof (intro allI impI)
    fix r
    assume al: "arrayLoop d c arr = Inr r"
    obtain v c' where r: "r = (v, c')" by (cases r)
    show "arrayLoop (d @ t) c arr = Inr r"
    proof (cases "char_at d (pos c) = CHR '']''")
      case True
      then have "pos c < length d" by (auto dest: char_at_eq_bound)
      with True al show ?thesis
        by (simp add: arrayLoop.simps[of d c] arrayLoop.simps[of "d @ t" c]
            char_at_app advance1_app)
    next
      case False
      with al obtain x c1 where pv: "parseValue d c = Inr (x, c1)"
        by (auto simp: arrayLoop.simps[of d c] split: sum.splits)
      define c2 where "c2 = skipWhitespace d c1"
      define c3 where "c3 = (if char_at d (pos c2) = CHR '','' then skipWhitespace d (advance1 d c2) else c2)"
      from False al pv have rec: "arrayLoop d c3 (arr @ [x]) = Inr r"
        by (auto simp: arrayLoop.simps[of d c] Let_def c2_def c3_def)
      from parse_progress(1)[of d c] pv have "pos c < pos c1 \<and> pos c1 \<le> length d" by simp
      then have b: "pos c < length d" by simp
      from parse_progress(5)[of d c3 "arr @ [x]"] rec
      have b3: "pos c3 < length d" by (simp add: r)
      have b2: "pos c2 < length d"
      proof (cases "char_at d (pos c2) = CHR '',''")
        case True
        then show ?thesis by (auto dest: char_at_eq_bound)
      next
        case False
        with b3 show ?thesis by (simp add: c3_def)
      qed
      have "pos c1 \<le> pos c2" unfolding c2_def by (rule skipWhitespace_pos)
      with b2 have b1: "pos c1 < length d" by simp
      from b False have nb: "char_at (d @ t) (pos c) \<noteq> CHR '']''" by (simp add: char_at_app)
      from "5.hyps"(1)[OF False] pv b1
      have pv': "parseValue (d @ t) c = Inr (x, c1)" by simp
      from b2 have sw2: "skipWhitespace (d @ t) c1 = c2"
        unfolding c2_def by (rule skipWhitespace_app)
      have c3': "(if char_at (d @ t) (pos c2) = CHR '','' then
          skipWhitespace (d @ t) (advance1 (d @ t) c2) else c2) = c3"
      proof (cases "char_at d (pos c2) = CHR '',''")
        case True
        then have c3: "c3 = skipWhitespace d (advance1 d c2)" by (simp add: c3_def)
        with b3 have "skipWhitespace (d @ t) (advance1 d c2) = skipWhitespace d (advance1 d c2)"
          by (intro skipWhitespace_app) simp
        with True b2 c3 show ?thesis by (simp add: char_at_app advance1_app)
      next
        case False
        with b2 show ?thesis by (simp add: char_at_app c3_def)
      qed
      have "arrayLoop (d @ t) c arr = arrayLoop (d @ t) c3 (arr @ [x])"
        by (simp add: arrayLoop.simps[of "d @ t" c] nb pv' sw2 c3' Let_def split del: if_split
            cong: if_cong)
      with "5.hyps"(2)[OF False pv refl c2_def c3_def] rec
      show ?thesis by simp
    qed
  qed
qed

text \<open>
  Claim C10, as it stands, fails when the value is a number and the trailing content goes
  on with it: the text \<open>1\<close> is the \<open>Integer\<close> 1, but followed by a point it is read as the
  \<open>Double\<close> 1.0, and followed by \<open>2\<close> as the \<open>Integer\<close> 12.
\<close>

theorem C10_number_counterexample:
  "parse ''1'' = Inr (JInteger 1) \<and>
   parse (''1'' @ ''.'') = Inr (JDouble 0x3FF0000000000000) \<and>
   parse (''1'' @ ''2'') = Inr (JInteger 12)"
  by (simp add: parse_eval stod_def round_to_double_def number_eval)

text \<open>
  Claim C10, amended. When \<open>parse\<close> returns a value for a text, it returns the same value
  for that text followed by any trailing content, provided that, when the value is a
  number, the trailing content does not go on with the number: it does not begin with a
  digit, nor with a point after an \<open>Integer\<close>. Nothing is raised for the trailing content.
\<close>

theorem C10_trailing_content:
  assumes "parse s = Inr v" and "value_ends v t"
  shows "parse (s @ t) = Inr v"
proof -
  define c0 where "c0 = skipWhitespace s initial"
  from assms(1) obtain c' where pv: "parseValue s c0 = Inr (v, c')"
    by (auto simp: parse_def c0_def split: sum.splits)
  from parse_progress(1)[of s c0] pv have "pos c0 < length s" by simp
  then have sw: "skipWhitespace (s @ t) initial = c0"
    unfolding c0_def by (rule skipWhitespace_app)
  from parse_app(1)[of s c0 t] pv assms(2)
  have "parseValue (s @ t) c0 = Inr (v, c')" by simp
  then show ?thesis by (simp add: parse_def sw)
qed

theorem C10_trailing_content_witness:
  "parse (''true'' @ '' garbage'') = Inr (JBoolean True) \<and>
   parse (''null'' @ ''x'') = Inr JNull \<and>
   parse (''[1, 2]'' @ ''3'') = Inr (JArray [JInteger 1, JInteger 2]) \<and>
   parse (''12'' @ ''e5'') = Inr (JInteger 12)"
  using C10_trailing_content [of "''true''" "JBoolean True" "'' garbage''"]
    C10_trailing_content [of "''null''" JNull "''x''"]
    C10_trailing_content [of "''[1, 2]''" "JArray [JInteger 1, JInteger 2]" "''3''"]
    C10_trailing_content [of "''12''" "JInteger 12" "''e5''"]
  by (simp add: parse_eval value_ends_def number_ends_def)

end
